theory Spec2Isabelle
  imports Main "HOL-Library.Char_ord" "HOL-Library.List_Lexorder" "HOL-Library.AList"
begin

section \<open>Values and strings\<close>

text \<open>
  A Python \<open>str\<close> is modelled as a \<^typ>\<open>string\<close> whose characters stand for the code
  points below 256, so that \<open>len\<close> is \<^const>\<open>length\<close>. A spreadsheet cell, and the
  argument of the text cleaner, is Python's \<open>None\<close>, the float \<open>NaN\<close> that pandas puts
  in a blank cell, or a text.
\<close>

datatype cell = PyNone | NaN | Str string

text \<open>\<open>pd.notna\<close> and \<open>pd.isna\<close> on a scalar.\<close>

fun notna :: "cell \<Rightarrow> bool" where
  "notna PyNone = False"
| "notna NaN = False"
| "notna (Str s) = True"

definition isna :: "cell \<Rightarrow> bool" where
  "isna v = (\<not> notna v)"

text \<open>Truth value of a Python object: \<open>None\<close> and the empty string are false, \<open>NaN\<close> is true.\<close>

fun truthy :: "cell \<Rightarrow> bool" where
  "truthy PyNone = False"
| "truthy NaN = True"
| "truthy (Str s) = (s \<noteq> [])"

text \<open>
  The whitespace of \<open>str.strip\<close>, \<open>str.split\<close> and of \<open>\s\<close> in a \<open>str\<close> pattern is
  the same set of code points; below 256 these are the following.
\<close>

definition isspace :: "char \<Rightarrow> bool" where
  "isspace c = (c \<in> {CHR 0x09, CHR 0x0A, CHR 0x0B, CHR 0x0C, CHR 0x0D,
                      CHR 0x1C, CHR 0x1D, CHR 0x1E, CHR 0x1F, CHR 0x20,
                      CHR 0x85, CHR 0xA0})"

text \<open>The character class \<open>[.!?]\<close>.\<close>

definition is_punct :: "char \<Rightarrow> bool" where
  "is_punct c = (c \<in> {CHR ''.'', CHR ''!'', CHR ''?''})"

text \<open>\<open>str.lower\<close> on code points below 256.\<close>

definition lower_char :: "char \<Rightarrow> char" where
  "lower_char c =
     (let n = (of_char c :: nat)
      in if (65 \<le> n \<and> n \<le> 90) \<or> (192 \<le> n \<and> n \<le> 222 \<and> n \<noteq> 215)
         then char_of (n + 32) else c)"

definition lower :: "string \<Rightarrow> string" where
  "lower s = map lower_char s"

definition lstrip :: "string \<Rightarrow> string" where
  "lstrip s = dropWhile isspace s"

definition rstrip :: "string \<Rightarrow> string" where
  "rstrip s = rev (dropWhile isspace (rev s))"

definition strip :: "string \<Rightarrow> string" where
  "strip s = rstrip (lstrip s)"

text \<open>\<open>str.split()\<close> without a separator: the maximal runs of non-whitespace.\<close>

fun split_from :: "string \<Rightarrow> string \<Rightarrow> string list" where
  "split_from w [] = (if w = [] then [] else [w])"
| "split_from w (c # cs) =
     (if isspace c then (if w = [] then [] else [w]) @ split_from [] cs
      else split_from (w @ [c]) cs)"

definition split :: "string \<Rightarrow> string list" where
  "split s = split_from [] s"

text \<open>\<open>sep.join(xs)\<close>.\<close>

fun join :: "string \<Rightarrow> string list \<Rightarrow> string" where
  "join sep [] = []"
| "join sep [x] = x"
| "join sep (x # y # ys) = x @ sep @ join sep (y # ys)"

section \<open>Text cleaner\<close>

text \<open>
  \<open>re.split(r'([.!?]+)\s+', text)\<close>. The pattern matches at a position exactly when the
  character there is in \<open>[.!?]\<close> and the maximal run of such characters starting there
  is followed by whitespace: the greedy \<open>[.!?]+\<close> takes the whole run, and giving
  characters of the run back never helps, because \<open>\s+\<close> would then have to start on a
  character of the run. The match then takes all the whitespace that follows. The result
  alternates the pieces between matches with the captured runs, and ends with the piece
  after the last match. \<open>piece\<close> collects the characters since the last match.
\<close>

function re_split_from :: "string \<Rightarrow> string \<Rightarrow> string list" where
  "re_split_from piece [] = [piece]"
| "re_split_from piece (c # cs) =
     (if is_punct c \<and> dropWhile is_punct cs \<noteq> [] \<and> isspace (hd (dropWhile is_punct cs))
      then piece # (c # takeWhile is_punct cs)
             # re_split_from [] (dropWhile isspace (dropWhile is_punct cs))
      else re_split_from (piece @ [c]) cs)"
  by pat_completeness auto
termination
proof (relation "measure (\<lambda>(piece, s). length s)")
  show "wf (measure (\<lambda>(piece, s). length s))" by simp
next
  fix piece :: string and c :: char and cs :: string
  have "length (dropWhile isspace (dropWhile is_punct cs)) \<le> length (dropWhile is_punct cs)"
    by (rule length_dropWhile_le)
  also have "\<dots> \<le> length cs"
    by (rule length_dropWhile_le)
  finally show "((([] :: string), dropWhile isspace (dropWhile is_punct cs)), (piece, c # cs))
                  \<in> measure (\<lambda>(piece, s). length s)"
    by simp
next
  fix piece :: string and c :: char and cs :: string
  show "((piece @ [c], cs), (piece, c # cs)) \<in> measure (\<lambda>(piece, s). length s)"
    by simp
qed

definition re_split :: "string \<Rightarrow> string list" where
  "re_split s = re_split_from [] s"

text \<open>
  The loop \<open>for i in range(0, len(sentences) - 1, 2)\<close> visits the pieces at even
  positions that have a successor; inside it \<open>i + 1 < len(sentences)\<close> always holds,
  so the captured run is always appended.
\<close>

fun reconstruct :: "string list \<Rightarrow> string list" where
  "reconstruct (s0 # s1 # rest) =
     (if strip s0 \<noteq> [] then [strip (strip s0 @ s1)] else []) @ reconstruct rest"
| "reconstruct rest = []"

text \<open>The piece after the last match, when the list has odd length.\<close>

definition last_piece :: "string list \<Rightarrow> string list" where
  "last_piece sentences =
     (if length sentences mod 2 = 1 \<and> strip (last sentences) \<noteq> []
      then [strip (last sentences)] else [])"

definition full_sentences :: "string list \<Rightarrow> string list" where
  "full_sentences sentences = reconstruct sentences @ last_piece sentences"

definition normalized :: "string \<Rightarrow> string" where
  "normalized sentence = join '' '' (split (lower sentence))"

text \<open>The loop over \<open>full_sentences\<close>, with the set \<open>seen\<close> passed along.\<close>

fun remove_duplicates :: "string set \<Rightarrow> string list \<Rightarrow> string list" where
  "remove_duplicates seen [] = []"
| "remove_duplicates seen (sentence # rest) =
     (if normalized sentence \<noteq> [] \<and> normalized sentence \<notin> seen \<and> length (normalized sentence) > 5
      then sentence # remove_duplicates (insert (normalized sentence) seen) rest
      else remove_duplicates seen rest)"

text \<open>The list \<open>cleaned\<close> that the function builds from a stripped text.\<close>

definition cleaned :: "string \<Rightarrow> string list" where
  "cleaned text = remove_duplicates {} (full_sentences (re_split text))"

text \<open>\<open>_clean_repetitive_text\<close> on a text, from \<open>text = str(text).strip()\<close> on.\<close>

definition clean_str :: "string \<Rightarrow> string" where
  "clean_str s =
     (let text = strip s
      in if text = [] then text
         else (let result = join '' '' (cleaned text)
               in if result \<noteq> [] then result else text))"

text \<open>\<open>_clean_repetitive_text\<close>: a false or null argument is returned as it is.\<close>

definition clean_repetitive_text :: "cell \<Rightarrow> cell" where
  "clean_repetitive_text text =
     (if \<not> truthy text \<or> isna text then text
      else (case text of Str s \<Rightarrow> Str (clean_str s) | other \<Rightarrow> other))"

section \<open>Dictionaries and event records\<close>

text \<open>
  A Python \<open>dict\<close> is an association list with distinct keys in insertion order:
  \<^const>\<open>map_of\<close> looks a key up and \<^const>\<open>AList.update\<close> stores a value, in place
  for a key that is present and at the end for a new one. An event is one of the records of
  \<open>to_dict('records')\<close>: a dictionary from column names to cells.
\<close>

type_synonym event = "(string \<times> cell) list"

text \<open>\<open>d.get(key, default)\<close>.\<close>

definition dict_get :: "('k \<times> 'v) list \<Rightarrow> 'k \<Rightarrow> 'v \<Rightarrow> 'v" where
  "dict_get d key dflt = (case map_of d key of None \<Rightarrow> dflt | Some v \<Rightarrow> v)"

section \<open>Section grouper\<close>

text \<open>
  The two statements \<open>if section not in sections: sections[section] = []\<close> and
  \<open>sections[section].append(event)\<close>: the event is appended to the list of its section,
  and a section that is not there yet is added at the end.
\<close>

fun append_to :: "'k \<Rightarrow> 'v \<Rightarrow> ('k \<times> 'v list) list \<Rightarrow> ('k \<times> 'v list) list" where
  "append_to section event [] = [(section, [event])]"
| "append_to section event ((name, events) # sections) =
     (if section = name then (name, events @ [event]) # sections
      else (name, events) # append_to section event sections)"

text \<open>
  One turn of the loop of \<open>_group_events_by_section\<close>. A cell that passes \<open>pd.notna\<close>
  is a text, which is the key of the section.
\<close>

definition group_step :: "(string \<times> event list) list \<Rightarrow> event \<Rightarrow> (string \<times> event list) list" where
  "group_step sections event =
     (let section = dict_get event ''Department/Section'' (Str ''OTHER ACTIVITIES'')
      in if notna section
         then (case section of Str name \<Rightarrow> append_to name event sections
                             | PyNone \<Rightarrow> sections | NaN \<Rightarrow> sections)
         else sections)"

definition group_events_by_section :: "event list \<Rightarrow> (string \<times> event list) list" where
  "group_events_by_section events = foldl group_step [] events"

section \<open>Page index\<close>

text \<open>
  The end of \<open>generate_html\<close>. Python compares strings by code point, position by
  position, which is the lexicographic order of \<^typ>\<open>string\<close>.
\<close>

definition sorted_sections :: "(string \<times> event list) list \<Rightarrow> string list" where
  "sorted_sections sections = sort (map fst sections)"

definition start_section_page :: int where
  "start_section_page = 4"

text \<open>
  The dictionary comprehension
  \<open>{name: start_section_page + idx for idx, name in enumerate(sorted_sections)}\<close>.
\<close>

definition section_page_map :: "string list \<Rightarrow> (string \<times> int) list" where
  "section_page_map names =
     foldl (\<lambda>m (idx, name). AList.update name (start_section_page + int idx) m) []
       (enumerate 0 names)"

text \<open>
  The two loops of the template over \<open>sorted_sections\<close>. The rows of the table of
  contents carry \<open>idx + 1\<close>, the section name (which the template prints in upper
  case) and \<open>section_page_map.get(section_name, 'XX')\<close>, where \<^const>\<open>None\<close>
  stands for the text \<open>XX\<close>. The section pages are emitted
  one per name, each with the events \<open>sections[section_name]\<close>; a page is represented by
  the name and the events it is rendered from.
\<close>

definition contents_rows :: "string list \<Rightarrow> (string \<times> int) list \<Rightarrow> (int \<times> string \<times> int option) list" where
  "contents_rows names page_map =
     map (\<lambda>(idx, section_name). (int idx + 1, section_name, map_of page_map section_name))
       (enumerate 0 names)"

definition section_pages :: "(string \<times> event list) list \<Rightarrow> string list \<Rightarrow> (string \<times> event list) list" where
  "section_pages sections names =
     map (\<lambda>section_name. (section_name, dict_get sections section_name [])) names"

text \<open>The key of the section that an event is put into, if any (used in proofs).\<close>

definition section_key :: "event \<Rightarrow> string option" where
  "section_key event =
     (case dict_get event ''Department/Section'' (Str ''OTHER ACTIVITIES'') of
        Str name \<Rightarrow> Some name | PyNone \<Rightarrow> None | NaN \<Rightarrow> None)"

section \<open>Image resolver\<close>

text \<open>
  Paths are POSIX paths. \<open>os.path.join\<close> of relative components puts a slash between
  them, \<open>os.path.basename\<close> is what follows the last slash, and
  \<open>.replace('\\', '/')\<close> turns every backslash into a slash.
\<close>

definition path_join :: "string list \<Rightarrow> string" where
  "path_join components = join ''/'' components"

definition basename :: "string \<Rightarrow> string" where
  "basename path = rev (takeWhile (\<lambda>c. c \<noteq> CHR ''/'') (rev path))"

definition replace_backslash :: "string \<Rightarrow> string" where
  "replace_backslash s = map (\<lambda>c. if c = CHR 0x5C then CHR ''/'' else c) s"

definition header_keys :: "(string \<times> string) list" where
  "header_keys =
     [(''college_logo'', path_join [''static'', ''images'', ''college_logo.png'']),
      (''orbits_logo'', path_join [''static'', ''images'', ''orbits_logo.png'']),
      (''naac_badge'', path_join [''static'', ''images'', ''naac_badge.png'']),
      (''vision'', path_join [''static'', ''images'', ''vision.png''])]"

text \<open>
  The file system and the image library are parameters: \<open>exists\<close> is
  \<open>os.path.exists\<close>, and \<open>encode_image\<close> is the local function \<open>_encode_image\<close>, which
  reads the file, resizes and compresses it when Pillow is there, and returns the base64
  text, or \<open>None\<close> after any exception.

  One turn of the loop over the header keys.
\<close>

definition header_step ::
  "(string \<Rightarrow> bool) \<Rightarrow> (string \<times> string) list \<Rightarrow> string \<times> string \<Rightarrow> (string \<times> string) list" where
  "header_step exists image_paths entry =
     (case entry of (key, path) \<Rightarrow>
        if exists path
        then AList.update key
               (replace_backslash (path_join [''static'', ''images'', basename path])) image_paths
        else image_paths)"

text \<open>
  One turn of the loop over the images of the caller. \<open>if encoded:\<close> lets neither
  \<open>None\<close> nor the empty text through.
\<close>

definition embed_step ::
  "(string \<Rightarrow> bool) \<Rightarrow> (string \<Rightarrow> string option) \<Rightarrow> (string \<times> string) list
     \<Rightarrow> (string \<times> string) list \<Rightarrow> string \<times> string \<Rightarrow> (string \<times> string) list" where
  "embed_step exists encode_image image_paths embedded_images entry =
     (case entry of (key, path) \<Rightarrow>
        if map_of image_paths key \<noteq> None then embedded_images
        else if exists path
        then (case encode_image path of
                None \<Rightarrow> embedded_images
              | Some encoded \<Rightarrow>
                  if encoded \<noteq> [] then AList.update key encoded embedded_images
                  else embedded_images)
        else embedded_images)"

text \<open>
  \<open>_convert_images_to_base64\<close>, with the mapping \<open>self.image_paths\<close> of the caller as
  the last argument; the result is the pair \<open>(embedded_images, image_paths)\<close>.
\<close>

definition convert_images_to_base64 ::
  "(string \<Rightarrow> bool) \<Rightarrow> (string \<Rightarrow> string option) \<Rightarrow> (string \<times> string) list
     \<Rightarrow> (string \<times> string) list \<times> (string \<times> string) list" where
  "convert_images_to_base64 exists encode_image self_image_paths =
     (let image_paths = foldl (header_step exists) [] header_keys;
          embedded_images =
            foldl (embed_step exists encode_image image_paths) [] self_image_paths
      in (embedded_images, image_paths))"

section \<open>Record loader\<close>

text \<open>
  A sheet as \<open>pd.read_excel\<close> returns it: the column names and the rows of cells. A row
  that is shorter than the list of columns has blank cells at the end. The file at
  \<open>excel_path\<close> is a workbook, a dictionary from sheet names to sheets, when it can be
  read, and \<^const>\<open>None\<close> when it is missing or corrupt.
\<close>

record dataframe =
  columns :: "string list"
  rows :: "cell list list"

type_synonym workbook = "(string \<times> dataframe) list"

text \<open>
  The exceptions inside the \<open>try\<close> block, and the single exception
  \<open>Exception(f"Error loading Excel: {str(e)}")\<close> that \<open>_load_data\<close> raises for any of
  them.
\<close>

datatype cause = FileError | WorksheetNotFound string | KeyError string

datatype load_error = ErrorLoadingExcel cause

text \<open>Sequencing of steps that may raise: the first exception ends the block.\<close>

fun and_then :: "'e + 'a \<Rightarrow> ('a \<Rightarrow> 'e + 'b) \<Rightarrow> 'e + 'b" where
  "and_then (Inl e) f = Inl e"
| "and_then (Inr a) f = f a"

definition sheet_names :: "workbook \<Rightarrow> string list" where
  "sheet_names wb = map fst wb"

text \<open>\<open>pd.read_excel(self.excel_path, sheet_name=name)\<close> raises when there is no such sheet.\<close>

definition read_excel :: "workbook \<Rightarrow> string \<Rightarrow> cause + dataframe" where
  "read_excel wb name =
     (case map_of wb name of None \<Rightarrow> Inl (WorksheetNotFound name) | Some df \<Rightarrow> Inr df)"

definition first_cell :: "cell list \<Rightarrow> cell" where
  "first_cell row = (case row of [] \<Rightarrow> NaN | v # rest \<Rightarrow> v)"

text \<open>\<open>row[key]\<close> for a row of \<open>df.iterrows()\<close>: \<open>KeyError\<close> without such a column.\<close>

fun row_lookup :: "string list \<Rightarrow> cell list \<Rightarrow> string \<Rightarrow> cause + cell" where
  "row_lookup [] row key = Inl (KeyError key)"
| "row_lookup (c # cs) row key =
     (if c = key then Inr (first_cell row) else row_lookup cs (tl row) key)"

text \<open>
  The comprehension
  \<open>{row['Field']: row['Value'] for _, row in df.iterrows() if pd.notna(row['Field'])}\<close>:
  for every row the condition is evaluated first, then the key and the value.
\<close>

fun field_value_from ::
  "(cell \<times> cell) list \<Rightarrow> string list \<Rightarrow> cell list list \<Rightarrow> cause + (cell \<times> cell) list" where
  "field_value_from d cols [] = Inr d"
| "field_value_from d cols (row # rest) =
     (case row_lookup cols row ''Field'' of
        Inl e \<Rightarrow> Inl e
      | Inr field \<Rightarrow>
          if notna field
          then (case row_lookup cols row ''Value'' of
                  Inl e \<Rightarrow> Inl e
                | Inr v \<Rightarrow> field_value_from (AList.update field v d) cols rest)
          else field_value_from d cols rest)"

definition field_value_dict :: "dataframe \<Rightarrow> cause + (cell \<times> cell) list" where
  "field_value_dict df = field_value_from [] (columns df) (rows df)"

text \<open>The cells of a row in the columns of a given name.\<close>

fun cells_of :: "string list \<Rightarrow> cell list \<Rightarrow> string \<Rightarrow> cell list" where
  "cells_of [] row key = []"
| "cells_of (c # cs) row key =
     (if c = key then [first_cell row] else []) @ cells_of cs (tl row) key"

text \<open>One record of \<open>to_dict('records')\<close>: the dictionary of the columns and the cells.\<close>

fun to_record_from :: "event \<Rightarrow> string list \<Rightarrow> cell list \<Rightarrow> event" where
  "to_record_from d [] row = d"
| "to_record_from d (c # cs) row =
     to_record_from (AList.update c (first_cell row) d) cs (tl row)"

text \<open>
  \<open>df.dropna(subset=[key]).to_dict('records')\<close>: \<open>KeyError\<close> without such a column;
  a row is dropped when a cell of it in such a column is null.
\<close>

definition dropna_records :: "string \<Rightarrow> dataframe \<Rightarrow> cause + event list" where
  "dropna_records key df =
     (if key \<notin> set (columns df) then Inl (KeyError key)
      else Inr (map (to_record_from [] (columns df))
                  (filter (\<lambda>row. list_all notna (cells_of (columns df) row key)) (rows df))))"

text \<open>
  The two \<open>df.rename\<close> calls of the objectives and outcomes tables: column names are
  stripped, and \<open>Objective\<close> and \<open>Outcome\<close> become \<open>Description\<close>.
\<close>

definition rename_description :: "dataframe \<Rightarrow> dataframe" where
  "rename_description df =
     df\<lparr>columns :=
          map (\<lambda>c. if strip c = ''Objective'' \<or> strip c = ''Outcome'' then ''Description''
                    else strip c) (columns df)\<rparr>"

record newsletter_data =
  info :: "(cell \<times> cell) list"
  editorial :: "event list"
  vision_mission :: "event list"
  peo :: "event list"
  pso :: "event list"
  events :: "event list"
  contact :: "(cell \<times> cell) list"

text \<open>The seven tables, in the order in which \<open>_load_data\<close> reads them.\<close>

definition load_info :: "workbook \<Rightarrow> cause + (cell \<times> cell) list" where
  "load_info wb = and_then (read_excel wb ''Newsletter Info'') field_value_dict"

definition load_editorial :: "workbook \<Rightarrow> cause + event list" where
  "load_editorial wb = and_then (read_excel wb ''Editorial Board'') (dropna_records ''Role'')"

definition load_vision_mission :: "workbook \<Rightarrow> cause + event list" where
  "load_vision_mission wb =
     (if ''Vision & Mission'' \<in> set (sheet_names wb)
      then and_then (read_excel wb ''Vision & Mission'') (dropna_records ''Type'')
      else Inr [])"

definition load_peo :: "workbook \<Rightarrow> cause + event list" where
  "load_peo wb =
     (if ''Program Objectives'' \<in> set (sheet_names wb)
      then and_then (read_excel wb ''Program Objectives'')
             (\<lambda>df. dropna_records ''Code'' (rename_description df))
      else Inr [])"

definition load_pso :: "workbook \<Rightarrow> cause + event list" where
  "load_pso wb =
     (if ''Program Outcomes'' \<in> set (sheet_names wb)
      then and_then (read_excel wb ''Program Outcomes'')
             (\<lambda>df. dropna_records ''Code'' (rename_description df))
      else Inr [])"

definition load_events :: "workbook \<Rightarrow> cause + event list" where
  "load_events wb =
     and_then (read_excel wb ''Department Events'') (dropna_records ''Event Title'')"

definition load_contact :: "workbook \<Rightarrow> cause + (cell \<times> cell) list" where
  "load_contact wb =
     (if ''Contact Info'' \<in> set (sheet_names wb)
      then and_then (read_excel wb ''Contact Info'') field_value_dict
      else Inr [])"

text \<open>The body of the \<open>try\<close> block after \<open>pd.ExcelFile\<close> has opened the file.\<close>

definition read_sheets :: "workbook \<Rightarrow> cause + newsletter_data" where
  "read_sheets wb =
     and_then (load_info wb) (\<lambda>i.
     and_then (load_editorial wb) (\<lambda>e.
     and_then (load_vision_mission wb) (\<lambda>vm.
     and_then (load_peo wb) (\<lambda>po.
     and_then (load_pso wb) (\<lambda>ps.
     and_then (load_events wb) (\<lambda>ev.
     and_then (load_contact wb) (\<lambda>c.
       Inr \<lparr>info = i, editorial = e, vision_mission = vm, peo = po, pso = ps,
            events = ev, contact = c\<rparr>)))))))"

text \<open>\<open>_load_data\<close>: every exception of the block is raised again as the one load error.\<close>

definition load_data :: "workbook option \<Rightarrow> load_error + newsletter_data" where
  "load_data file =
     (case file of
        None \<Rightarrow> Inl (ErrorLoadingExcel FileError)
      | Some wb \<Rightarrow>
          (case read_sheets wb of
             Inl e \<Rightarrow> Inl (ErrorLoadingExcel e)
           | Inr d \<Rightarrow> Inr d))"

text \<open>
  The remaining definitions of this section serve to state when a workbook loads; they do
  not use the functions of the loader. The cell of a row in the first column of a given
  name is found by pairing the column names with the cells of the row, after the row has
  been filled up with blank cells; it is blank when there is no such column.
\<close>

definition cell_of :: "string list \<Rightarrow> cell list \<Rightarrow> string \<Rightarrow> cell" where
  "cell_of cols row key =
     (case map_of (zip cols (row @ replicate (length cols) NaN)) key of
        None \<Rightarrow> NaN
      | Some v \<Rightarrow> v)"

text \<open>
  A sheet of fields and values lacks a column that is read when it has a row but not the
  column \<open>Field\<close>, or has a row whose \<open>Field\<close> cell is not null but not the column
  \<open>Value\<close>.
\<close>

definition lacks_field_value :: "dataframe \<Rightarrow> bool" where
  "lacks_field_value df =
     (rows df \<noteq> [] \<and> ''Field'' \<notin> set (columns df)
      \<or> ''Value'' \<notin> set (columns df)
         \<and> (\<exists>row \<in> set (rows df). notna (cell_of (columns df) row ''Field'')))"

text \<open>
  A workbook is loadable when the three sheets that are read without a test are there,
  and every sheet that is there has its column: \<open>Role\<close>, \<open>Type\<close>, \<open>Event Title\<close>,
  \<open>Code\<close> among the stripped column names of the objectives and of the outcomes, and
  for the two sheets of fields and values what is said above.
\<close>

definition loadable :: "workbook \<Rightarrow> bool" where
  "loadable wb =
     ((\<exists>df. map_of wb ''Newsletter Info'' = Some df \<and> \<not> lacks_field_value df)
      \<and> (\<exists>df. map_of wb ''Editorial Board'' = Some df \<and> ''Role'' \<in> set (columns df))
      \<and> (\<exists>df. map_of wb ''Department Events'' = Some df \<and> ''Event Title'' \<in> set (columns df))
      \<and> (\<forall>df. map_of wb ''Vision & Mission'' = Some df \<longrightarrow> ''Type'' \<in> set (columns df))
      \<and> (\<forall>df. map_of wb ''Program Objectives'' = Some df \<longrightarrow>
             ''Code'' \<in> strip ` set (columns df))
      \<and> (\<forall>df. map_of wb ''Program Outcomes'' = Some df \<longrightarrow>
             ''Code'' \<in> strip ` set (columns df))
      \<and> (\<forall>df. map_of wb ''Contact Info'' = Some df \<longrightarrow> \<not> lacks_field_value df))"

text \<open>
  What a load error can name as its cause for a workbook: a worksheet that is read
  without a test and is not there, or a column that a sheet of the workbook does not
  have.
\<close>

definition names_cause :: "workbook \<Rightarrow> cause \<Rightarrow> bool" where
  "names_cause wb c =
     ((map_of wb ''Newsletter Info'' = None \<and> c = WorksheetNotFound ''Newsletter Info'')
      \<or> (map_of wb ''Editorial Board'' = None \<and> c = WorksheetNotFound ''Editorial Board'')
      \<or> (map_of wb ''Department Events'' = None \<and> c = WorksheetNotFound ''Department Events'')
      \<or> (\<exists>df. map_of wb ''Newsletter Info'' = Some df
              \<and> (c = KeyError ''Field'' \<and> ''Field'' \<notin> set (columns df)
                  \<or> c = KeyError ''Value'' \<and> ''Value'' \<notin> set (columns df)))
      \<or> (\<exists>df. map_of wb ''Editorial Board'' = Some df
              \<and> c = KeyError ''Role'' \<and> ''Role'' \<notin> set (columns df))
      \<or> (\<exists>df. map_of wb ''Vision & Mission'' = Some df
              \<and> c = KeyError ''Type'' \<and> ''Type'' \<notin> set (columns df))
      \<or> (\<exists>df. map_of wb ''Program Objectives'' = Some df
              \<and> c = KeyError ''Code'' \<and> ''Code'' \<notin> strip ` set (columns df))
      \<or> (\<exists>df. map_of wb ''Program Outcomes'' = Some df
              \<and> c = KeyError ''Code'' \<and> ''Code'' \<notin> strip ` set (columns df))
      \<or> (\<exists>df. map_of wb ''Department Events'' = Some df
              \<and> c = KeyError ''Event Title'' \<and> ''Event Title'' \<notin> set (columns df))
      \<or> (\<exists>df. map_of wb ''Contact Info'' = Some df
              \<and> (c = KeyError ''Field'' \<and> ''Field'' \<notin> set (columns df)
                  \<or> c = KeyError ''Value'' \<and> ''Value'' \<notin> set (columns df))))"

section \<open>PDF editor\<close>

text \<open>
  What the four drawing operations put on the canvas, with the arguments of the
  operation. Coordinates and sizes are integers here.
\<close>

datatype drawing =
    DrawString string int int int string string
  | DrawImage string int int int int
  | Rect int int int int string string int
  | Line int int int int string int

text \<open>
  A page is its own text, the overlays merged onto it and its rotation. The editor is the
  object of class \<open>PDFEditor\<close> together with the files that \<open>save\<close> has written,
  as a dictionary from paths to the pages of the file.
\<close>

record page =
  page_text :: string
  overlays :: "drawing list"
  rotation :: int

datatype pdf_error = IndexError | CanvasError | ValueError | IOError

record editor =
  reader_pages :: "page list"
  writer_pages :: "page list"
  num_pages :: nat
  disk :: "(string \<times> page list) list"

text \<open>\<open>__init__\<close>, given the pages that \<open>PdfReader\<close> finds in the file.\<close>

definition PDFEditor :: "page list \<Rightarrow> (string \<times> page list) list \<Rightarrow> editor" where
  "PDFEditor pages files =
     \<lparr>reader_pages = pages, writer_pages = [], num_pages = length pages, disk = files\<rparr>"

definition get_page_count :: "editor \<Rightarrow> nat" where
  "get_page_count st = num_pages st"

text \<open>
  \<open>self.reader.pages[page_num]\<close>: the page list of the reader is a Python sequence. A
  negative index counts from the end, and an index that is still out of range raises
  \<open>IndexError\<close>. \<^const>\<open>Inr\<close> carries the position of the page.
\<close>

definition resolve_index :: "nat \<Rightarrow> int \<Rightarrow> pdf_error + nat" where
  "resolve_index len_self index =
     (let index' = (if index < 0 then int len_self + index else index)
      in if index' < 0 \<or> index' \<ge> int len_self then Inl IndexError
         else Inr (nat index'))"

text \<open>\<open>page.merge_page(overlay.pages[0])\<close>.\<close>

definition merge_page :: "page \<Rightarrow> drawing \<Rightarrow> page" where
  "merge_page p overlay = p\<lparr>overlays := overlays p @ [overlay]\<rparr>"

text \<open>
  The common body of the four drawing operations. The canvas is drawn first; whether
  reportlab accepts the arguments (a known font, a colour that parses, an image that can
  be read) is the parameter \<open>canvas_ok\<close>. Then the page is looked up, the overlay is
  merged onto it in place, and the page is appended to the writer. An operation returns
  its result, or the exception it raises, together with the editor as it is then.
\<close>

definition draw_on_page ::
  "(drawing \<Rightarrow> bool) \<Rightarrow> int \<Rightarrow> drawing \<Rightarrow> editor \<Rightarrow> (pdf_error + bool) \<times> editor" where
  "draw_on_page canvas_ok page_num overlay st =
     (if \<not> canvas_ok overlay then (Inl CanvasError, st)
      else (case resolve_index (length (reader_pages st)) page_num of
              Inl e \<Rightarrow> (Inl e, st)
            | Inr i \<Rightarrow>
                (let p = merge_page (reader_pages st ! i) overlay
                 in (Inr True, st\<lparr>reader_pages := (reader_pages st)[i := p],
                                   writer_pages := writer_pages st @ [p]\<rparr>))))"

definition add_text ::
  "(drawing \<Rightarrow> bool) \<Rightarrow> int \<Rightarrow> string \<Rightarrow> int \<Rightarrow> int \<Rightarrow> int \<Rightarrow> string \<Rightarrow> string \<Rightarrow> editor
     \<Rightarrow> (pdf_error + bool) \<times> editor" where
  "add_text canvas_ok page_num text x y font_size color font_name st =
     draw_on_page canvas_ok page_num (DrawString text x y font_size color font_name) st"

definition add_image ::
  "(drawing \<Rightarrow> bool) \<Rightarrow> int \<Rightarrow> string \<Rightarrow> int \<Rightarrow> int \<Rightarrow> int \<Rightarrow> int \<Rightarrow> editor
     \<Rightarrow> (pdf_error + bool) \<times> editor" where
  "add_image canvas_ok page_num image_path x y width height st =
     draw_on_page canvas_ok page_num (DrawImage image_path x y width height) st"

definition add_rectangle ::
  "(drawing \<Rightarrow> bool) \<Rightarrow> int \<Rightarrow> int \<Rightarrow> int \<Rightarrow> int \<Rightarrow> int \<Rightarrow> string \<Rightarrow> string \<Rightarrow> int \<Rightarrow> editor
     \<Rightarrow> (pdf_error + bool) \<times> editor" where
  "add_rectangle canvas_ok page_num x y width height fill_color stroke_color stroke_width st =
     draw_on_page canvas_ok page_num (Rect x y width height fill_color stroke_color stroke_width) st"

definition add_line ::
  "(drawing \<Rightarrow> bool) \<Rightarrow> int \<Rightarrow> int \<Rightarrow> int \<Rightarrow> int \<Rightarrow> int \<Rightarrow> string \<Rightarrow> int \<Rightarrow> editor
     \<Rightarrow> (pdf_error + bool) \<times> editor" where
  "add_line canvas_ok page_num x1 y1 x2 y2 color width st =
     draw_on_page canvas_ok page_num (Line x1 y1 x2 y2 color width) st"

text \<open>
  \<open>rotate_page\<close>: the page is looked up first; \<open>page.rotate\<close> takes multiples of 90
  only.
\<close>

definition rotate_page :: "int \<Rightarrow> int \<Rightarrow> editor \<Rightarrow> (pdf_error + bool) \<times> editor" where
  "rotate_page page_num angle st =
     (case resolve_index (length (reader_pages st)) page_num of
        Inl e \<Rightarrow> (Inl e, st)
      | Inr i \<Rightarrow>
          if angle mod 90 \<noteq> 0 then (Inl ValueError, st)
          else (let p = (reader_pages st ! i)\<lparr>rotation := rotation (reader_pages st ! i) + angle\<rparr>
                in (Inr True, st\<lparr>reader_pages := (reader_pages st)[i := p],
                                  writer_pages := writer_pages st @ [p]\<rparr>)))"

text \<open>
  \<open>delete_page\<close>: the loop over \<open>range(self.num_pages)\<close> copies every page whose
  position is not \<open>page_num\<close>; the comparison \<open>i != page_num\<close> is the only use of
  \<open>page_num\<close>.
\<close>

fun delete_from :: "int \<Rightarrow> nat list \<Rightarrow> editor \<Rightarrow> (pdf_error + bool) \<times> editor" where
  "delete_from page_num [] st = (Inr True, st)"
| "delete_from page_num (i # rest) st =
     (if int i \<noteq> page_num
      then (case resolve_index (length (reader_pages st)) (int i) of
              Inl e \<Rightarrow> (Inl e, st)
            | Inr j \<Rightarrow>
                delete_from page_num rest
                  (st\<lparr>writer_pages := writer_pages st @ [reader_pages st ! j]\<rparr>))
      else delete_from page_num rest st)"

definition delete_page :: "int \<Rightarrow> editor \<Rightarrow> (pdf_error + bool) \<times> editor" where
  "delete_page page_num st = delete_from page_num [0..<num_pages st] st"

text \<open>
  \<open>extract_text\<close> looks the page up and returns its text. The text is the page's own
  text; the text that merged overlays add to what the library extracts is not represented.
\<close>

definition extract_text :: "int \<Rightarrow> editor \<Rightarrow> (pdf_error + string) \<times> editor" where
  "extract_text page_num st =
     (case resolve_index (length (reader_pages st)) page_num of
        Inl e \<Rightarrow> (Inl e, st)
      | Inr i \<Rightarrow> (Inr (page_text (reader_pages st ! i)), st))"

text \<open>
  \<open>save\<close> opens the path for writing and writes the pages of the writer, replacing the
  file there. Whether the path can be opened is the parameter \<open>can_open\<close>; when it
  cannot, the exception is raised and nothing is written.
\<close>

definition save :: "(string \<Rightarrow> bool) \<Rightarrow> string \<Rightarrow> editor \<Rightarrow> (pdf_error + bool) \<times> editor" where
  "save can_open output_path st =
     (if \<not> can_open output_path then (Inl IOError, st)
      else (Inr True, st\<lparr>disk := AList.update output_path (writer_pages st) (disk st)\<rparr>))"

section \<open>Auxiliary predicates for the text cleaner\<close>

text \<open>
  The remaining definitions of this section describe the sentences that the cleaner
  builds; they are used in proofs only. A text has no separator when no character of
  \<open>[.!?]\<close> is directly followed by whitespace.
\<close>
fun nosep :: "string \<Rightarrow> bool" where
  "nosep (c # d # cs) = (\<not> (is_punct c \<and> isspace d) \<and> nosep (d # cs))"
| "nosep cs = True"

definition tailok :: "string \<Rightarrow> bool" where
  "tailok s = (s \<noteq> [] \<and> \<not> isspace (hd s) \<and> \<not> isspace (last s) \<and> nosep s)"

definition closed :: "string \<Rightarrow> bool" where
  "closed s = (\<exists>b p. s = b @ p \<and> b \<noteq> [] \<and> \<not> isspace (hd b) \<and> \<not> isspace (last b)
                 \<and> \<not> is_punct (last b) \<and> nosep b \<and> p \<noteq> [] \<and> (\<forall>c \<in> set p. is_punct c))"

fun shape :: "string list \<Rightarrow> bool" where
  "shape [] = True"
| "shape [s] = tailok s"
| "shape (s # t # ss) = (closed s \<and> shape (t # ss))"

definition sepstart :: "string \<Rightarrow> bool" where
  "sepstart w = (dropWhile is_punct w \<noteq> [] \<and> isspace (hd (dropWhile is_punct w)))"

definition piece_ok :: "string \<Rightarrow> string \<Rightarrow> bool" where
  "piece_ok piece w =
     (nosep piece \<and> (piece \<noteq> [] \<longrightarrow> \<not> isspace (hd piece))
      \<and> (piece = [] \<longrightarrow> w = [] \<or> \<not> isspace (hd w))
      \<and> (piece \<noteq> [] \<and> is_punct (last piece) \<longrightarrow> \<not> sepstart w))"

section \<open>Properties of the text cleaner\<close>

lemma isspace_not_punct: "isspace c \<Longrightarrow> \<not> is_punct c"
  by (auto simp: isspace_def is_punct_def)

lemma strip_id: "s \<noteq> [] \<Longrightarrow> \<not> isspace (hd s) \<Longrightarrow> \<not> isspace (last s) \<Longrightarrow> strip s = s"
  by (cases s) (auto simp: strip_def lstrip_def rstrip_def last_rev hd_rev dropWhile_eq_self_iff
         simp flip: hd_rev)

lemma rstrip_decomp: "\<exists>v. m = rstrip m @ v \<and> (\<forall>c \<in> set v. isspace c)"
proof -
  let ?v = "rev (takeWhile isspace (rev m))"
  have "rev m = takeWhile isspace (rev m) @ dropWhile isspace (rev m)" by simp
  then have "m = rstrip m @ ?v"
    unfolding rstrip_def by (metis rev_append rev_rev_ident)
  moreover have "\<forall>c \<in> set ?v. isspace c" by (auto dest: set_takeWhileD)
  ultimately show ?thesis by blast
qed

lemma strip_decomp:
  "\<exists>u v. s = u @ strip s @ v \<and> (\<forall>c \<in> set u. isspace c) \<and> (\<forall>c \<in> set v. isspace c)"
proof -
  obtain v where v: "lstrip s = strip s @ v" "\<forall>c \<in> set v. isspace c"
    using rstrip_decomp [of "lstrip s"] by (auto simp: strip_def)
  have "s = takeWhile isspace s @ lstrip s" by (simp add: lstrip_def)
  with v have "s = takeWhile isspace s @ strip s @ v" by simp
  moreover have "\<forall>c \<in> set (takeWhile isspace s). isspace c" by (auto dest: set_takeWhileD)
  ultimately show ?thesis using v(2) by blast
qed

lemma strip_ends: "strip s \<noteq> [] \<Longrightarrow> \<not> isspace (hd (strip s)) \<and> \<not> isspace (last (strip s))"
proof
  assume ne: "strip s \<noteq> []"
  have "rev (strip s) = dropWhile isspace (rev (lstrip s))"
    by (simp add: strip_def rstrip_def)
  with ne have "\<not> isspace (hd (rev (strip s)))"
    by (metis hd_dropWhile rev_is_Nil_conv)
  with ne show "\<not> isspace (last (strip s))" by (simp add: hd_rev)
  obtain v where v: "lstrip s = strip s @ v"
    using rstrip_decomp [of "lstrip s"] by (auto simp: strip_def)
  with ne have "lstrip s \<noteq> []" by auto
  then have "\<not> isspace (hd (lstrip s))" unfolding lstrip_def by (rule hd_dropWhile)
  with v ne show "\<not> isspace (hd (strip s))" by (metis hd_append2)
qed

lemma nosep_append:
  "nosep (xs @ ys) = (nosep xs \<and> nosep ys \<and>
     (xs \<noteq> [] \<and> ys \<noteq> [] \<longrightarrow> \<not> (is_punct (last xs) \<and> isspace (hd ys))))"
proof (induction xs)
  case Nil
  then show ?case by simp
next
  case (Cons a xs)
  then show ?case by (cases xs; cases ys) auto
qed

lemma nosep_spaces: "\<forall>c \<in> set v. isspace c \<Longrightarrow> nosep v"
  by (induction v rule: nosep.induct) (auto dest: isspace_not_punct)

lemma nosep_puncts: "\<forall>c \<in> set p. is_punct c \<Longrightarrow> nosep p"
  by (induction p rule: nosep.induct) (auto dest: isspace_not_punct)

lemma nosep_strip: "nosep s \<Longrightarrow> nosep (strip s)"
proof -
  assume a: "nosep s"
  obtain u v where "s = u @ strip s @ v" using strip_decomp by blast
  with a have "nosep (u @ strip s @ v)" by simp
  then show ?thesis by (simp add: nosep_append)
qed

lemma run_not_followed_by_space:
  "nosep (c # cs) \<Longrightarrow> is_punct c \<Longrightarrow> dropWhile is_punct cs \<noteq> [] \<Longrightarrow>
   \<not> isspace (hd (dropWhile is_punct cs))"
  by (induction cs arbitrary: c) (auto split: if_splits)

lemma re_split_from_keep:
  "\<not> (is_punct c \<and> sepstart cs) \<Longrightarrow> re_split_from piece (c # cs) = re_split_from (piece @ [c]) cs"
  unfolding sepstart_def by (subst re_split_from.simps(2)) (simp only: if_False)

lemma re_split_from_cut:
  "is_punct c \<Longrightarrow> sepstart cs \<Longrightarrow>
   re_split_from piece (c # cs) =
     piece # (c # takeWhile is_punct cs) # re_split_from [] (dropWhile isspace (dropWhile is_punct cs))"
  unfolding sepstart_def by (subst re_split_from.simps(2)) (simp only: if_True simp_thms)

declare re_split_from.simps(2) [simp del]

lemma re_split_from_nosep: "nosep w \<Longrightarrow> re_split_from piece w = [piece @ w]"
proof (induction w arbitrary: piece)
  case Nil
  then show ?case by simp
next
  case (Cons c cs)
  from Cons.prems have n: "nosep cs" by (cases cs) auto
  have "\<not> (is_punct c \<and> sepstart cs)"
    using run_not_followed_by_space [OF Cons.prems] unfolding sepstart_def by blast
  then have "re_split_from piece (c # cs) = re_split_from (piece @ [c]) cs"
    by (rule re_split_from_keep)
  with Cons.IH [OF n] show ?case by simp
qed

lemma re_split_from_not_Nil: "re_split_from piece w \<noteq> []"
proof (induction w arbitrary: piece)
  case Nil
  then show ?case by simp
next
  case (Cons c cs)
  show ?case
  proof (cases "is_punct c \<and> sepstart cs")
    case True
    then show ?thesis by (simp add: re_split_from_cut)
  next
    case False
    then show ?thesis using Cons.IH by (simp add: re_split_from_keep)
  qed
qed

lemma body_run_not_sep:
  assumes "nosep (c # b)" "is_punct c" "b \<noteq> []" "\<not> is_punct (last b)"
  shows "\<not> sepstart (b @ x)"
proof -
  have l: "last b \<in> set b" using assms(3) by simp
  with assms(4) have d: "dropWhile is_punct (b @ x) = dropWhile is_punct b @ x"
    by (metis dropWhile_append1)
  have ne: "dropWhile is_punct b \<noteq> []"
    using assms(4) l by (auto simp: dropWhile_eq_Nil_conv)
  then have "\<not> isspace (hd (dropWhile is_punct b))"
    using run_not_followed_by_space [OF assms(1,2)] by simp
  with d ne show ?thesis by (simp add: sepstart_def)
qed

lemma re_split_from_body:
  assumes "nosep b" "b = [] \<or> \<not> is_punct (last b)" "p \<noteq> []" "\<forall>c \<in> set p. is_punct c"
    and "isspace sp"
  shows "re_split_from piece (b @ p @ sp # rest) =
           (piece @ b) # p # re_split_from [] (dropWhile isspace rest)"
  using assms(1,2)
proof (induction b arbitrary: piece)
  case Nil
  obtain c p' where p: "p = c # p'" using assms(3) by (cases p) auto
  have sp: "\<not> is_punct sp" using assms(5) by (rule isspace_not_punct)
  have dw: "dropWhile is_punct (p' @ sp # rest) = sp # rest"
    using assms(4) p sp by (simp add: dropWhile_append2)
  have tw: "takeWhile is_punct (p' @ sp # rest) = p'"
    using assms(4) p sp by (simp add: takeWhile_append2)
  have "sepstart (p' @ sp # rest)" using dw assms(5) by (simp add: sepstart_def)
  moreover have "is_punct c" using assms(4) p by simp
  ultimately have "re_split_from piece (c # p' @ sp # rest) =
      piece # (c # p') # re_split_from [] (dropWhile isspace (sp # rest))"
    using re_split_from_cut [of c "p' @ sp # rest" piece] dw tw by simp
  then show ?case using p assms(5) by simp
next
  case (Cons c b)
  have nb: "nosep b" using Cons.prems(1) by (cases b) auto
  have lb: "b = [] \<or> \<not> is_punct (last b)" using Cons.prems(2) by (cases b) auto
  have "\<not> (is_punct c \<and> sepstart (b @ p @ sp # rest))"
  proof
    assume a: "is_punct c \<and> sepstart (b @ p @ sp # rest)"
    with Cons.prems(2) have "b \<noteq> []" by auto
    with lb have "\<not> is_punct (last b)" by simp
    from body_run_not_sep [OF Cons.prems(1) _ \<open>b \<noteq> []\<close> this] a show False by blast
  qed
  then have "re_split_from piece ((c # b) @ p @ sp # rest) =
      re_split_from (piece @ [c]) (b @ p @ sp # rest)"
    by (simp add: re_split_from_keep)
  with Cons.IH [OF nb lb] show ?case by simp
qed

lemma hd_join: "x \<noteq> [] \<Longrightarrow> hd (join sep (x # xs)) = hd x"
  by (cases xs) auto

lemma closed_tailok: "closed s \<Longrightarrow> tailok s"
proof -
  assume "closed s"
  then obtain b p where s: "s = b @ p" and b: "b \<noteq> []" "\<not> isspace (hd b)" "nosep b"
    and p: "p \<noteq> []" "\<forall>c \<in> set p. is_punct c"
    unfolding closed_def by blast
  have "is_punct (last p)" using p by simp
  then have "\<not> isspace (last p)" using isspace_not_punct by blast
  moreover have "\<not> isspace (hd p)" using p isspace_not_punct by (cases p) auto
  moreover have "nosep p" using p(2) by (rule nosep_puncts)
  ultimately show ?thesis using s b p(1) by (simp add: tailok_def nosep_append)
qed

lemma shape_Cons: "closed x \<Longrightarrow> shape ys \<Longrightarrow> shape (x # ys)"
  by (cases ys) (auto dest: closed_tailok)

lemma shape_tl: "shape (x # ys) \<Longrightarrow> shape ys"
  by (cases ys) auto

lemma shape_hd: "shape (x # ys) \<Longrightarrow> ys \<noteq> [] \<Longrightarrow> closed x"
  by (cases ys) auto

lemma shape_elem: "shape xs \<Longrightarrow> x \<in> set xs \<Longrightarrow> tailok x"
  by (induction xs rule: shape.induct) (auto dest: closed_tailok)

lemma last_piece_Cons2: "rest \<noteq> [] \<Longrightarrow> last_piece (a # b # rest) = last_piece rest"
  by (simp add: last_piece_def)

lemma full_sentences_Cons2:
  "rest \<noteq> [] \<Longrightarrow> full_sentences (a # b # rest) =
     (if strip a \<noteq> [] then [strip (strip a @ b)] else []) @ full_sentences rest"
  by (simp add: full_sentences_def last_piece_Cons2)

lemma join_ends:
  "shape xs \<Longrightarrow> xs \<noteq> [] \<Longrightarrow>
   join '' '' xs \<noteq> [] \<and> hd (join '' '' xs) = hd (hd xs) \<and> last (join '' '' xs) = last (last xs)"
proof (induction xs rule: shape.induct)
  case 1
  then show ?case by simp
next
  case (2 s)
  then show ?case by (simp add: tailok_def)
next
  case (3 s t ss)
  then have "s \<noteq> []" by (auto dest: closed_tailok simp: tailok_def)
  with 3 show ?case by simp
qed

lemma full_sentences_join:
  "shape xs \<Longrightarrow> xs \<noteq> [] \<Longrightarrow> full_sentences (re_split_from [] (join '' '' xs)) = xs"
proof (induction xs rule: shape.induct)
  case 1
  then show ?case by simp
next
  case (2 s)
  then have t: "s \<noteq> []" "\<not> isspace (hd s)" "\<not> isspace (last s)" "nosep s"
    by (simp_all add: tailok_def)
  then show ?case
    by (simp add: re_split_from_nosep full_sentences_def last_piece_def strip_id)
next
  case (3 s t ss)
  from "3.prems" have cs: "closed s" and sh: "shape (t # ss)" by simp_all
  from cs obtain b p where s: "s = b @ p" and b: "b \<noteq> []" "\<not> isspace (hd b)"
      "\<not> isspace (last b)" "\<not> is_punct (last b)" "nosep b"
    and p: "p \<noteq> []" "\<forall>c \<in> set p. is_punct c"
    unfolding closed_def by blast
  let ?r = "join '' '' (t # ss)"
  have r: "?r \<noteq> []" "\<not> isspace (hd ?r)"
    using join_ends [OF sh] shape_elem [OF sh, of t] by (simp_all add: tailok_def)
  then have dw: "dropWhile isspace ?r = ?r" by (cases ?r) auto
  have sp: "isspace CHR '' ''" by (simp add: isspace_def)
  have "re_split_from [] (join '' '' (s # t # ss)) = re_split_from [] (b @ p @ CHR '' '' # ?r)"
    using s by simp
  also have "\<dots> = b # p # re_split_from [] ?r"
    using re_split_from_body [OF b(5) _ p sp, of "[]" ?r] b(4) dw by simp
  finally have e: "re_split_from [] (join '' '' (s # t # ss)) = b # p # re_split_from [] ?r" .
  have sb: "strip b = b" using b by (simp add: strip_id)
  have "is_punct (last p)" using p by simp
  then have "\<not> isspace (last p)" using isspace_not_punct by blast
  then have sbp: "strip (b @ p) = b @ p" using b p by (simp add: strip_id)
  show ?case
    using "3.IH" [OF sh] e sb sbp s b(1)
    by (simp add: full_sentences_Cons2 re_split_from_not_Nil)
qed

lemma sepstart_Cons_punct: "is_punct c \<Longrightarrow> sepstart (c # cs) = sepstart cs"
  by (simp add: sepstart_def)

lemma sepstart_Cons_space: "isspace c \<Longrightarrow> sepstart (c # cs)"
  by (auto simp: sepstart_def dest: isspace_not_punct)

lemma piece_ok_keep:
  assumes "piece_ok piece (c # cs)" "\<not> (is_punct c \<and> sepstart cs)"
  shows "piece_ok (piece @ [c]) cs"
proof -
  have j: "piece \<noteq> [] \<and> is_punct (last piece) \<longrightarrow> \<not> isspace c"
    using assms(1) sepstart_Cons_space [of c cs] by (auto simp: piece_ok_def)
  have "nosep (piece @ [c])"
    using assms(1) j by (auto simp: piece_ok_def nosep_append)
  moreover have "\<not> isspace (hd (piece @ [c]))"
    using assms(1) by (cases piece) (auto simp: piece_ok_def)
  moreover have "is_punct c \<longrightarrow> \<not> sepstart cs" using assms(2) by blast
  ultimately show ?thesis by (simp add: piece_ok_def)
qed

lemma piece_ok_cut: "piece_ok [] (dropWhile isspace w)"
  using hd_dropWhile [of isspace w] by (auto simp: piece_ok_def)

lemma closed_strip_piece:
  assumes "piece_ok piece (c # cs)" "is_punct c" "sepstart cs" "strip piece \<noteq> []"
  shows "closed (strip (strip piece @ c # takeWhile is_punct cs))"
proof -
  let ?b = "strip piece"
  let ?p = "c # takeWhile is_punct cs"
  have np: "nosep piece" using assms(1) by (simp add: piece_ok_def)
  have pne: "piece \<noteq> []" using assms(4) by (auto simp: strip_def lstrip_def rstrip_def)
  have "sepstart (c # cs)" using assms(2,3) by (simp add: sepstart_Cons_punct)
  with assms(1) pne have lp: "\<not> is_punct (last piece)" by (auto simp: piece_ok_def)
  obtain u v where d: "piece = u @ ?b @ v" and v: "\<forall>x \<in> set v. isspace x"
    using strip_decomp by blast
  have ends: "\<not> isspace (hd ?b)" "\<not> isspace (last ?b)" using strip_ends [OF assms(4)] by simp_all
  have nb: "nosep ?b" using np by (rule nosep_strip)
  have lb: "\<not> is_punct (last ?b)"
  proof (cases "v = []")
    case True
    with d have "piece = u @ ?b" by simp
    then have "last piece = last ?b" using assms(4) by (metis last_appendR)
    with lp show ?thesis by simp
  next
    case False
    have "nosep (?b @ v)" using np d by (metis nosep_append)
    then have "\<not> (is_punct (last ?b) \<and> isspace (hd v))"
      using False assms(4) by (simp add: nosep_append)
    moreover have "isspace (hd v)" using v False by (cases v) auto
    ultimately show ?thesis by blast
  qed
  have pp: "\<forall>x \<in> set ?p. is_punct x" using assms(2) by (auto dest: set_takeWhileD)
  then have "is_punct (last ?p)" by (metis last_in_set list.distinct(1))
  then have "\<not> isspace (last ?p)" using isspace_not_punct by blast
  then have "strip (?b @ ?p) = ?b @ ?p" using ends(1) assms(4) by (simp add: strip_id)
  moreover have "closed (?b @ ?p)"
    unfolding closed_def using assms(4) ends nb lb pp by blast
  ultimately show ?thesis by simp
qed

lemma shape_full_sentences:
  "piece_ok piece w \<Longrightarrow> shape (full_sentences (re_split_from piece w))"
proof (induction w arbitrary: piece rule: length_induct)
  case (1 w)
  show ?case
  proof (cases w)
    case Nil
    have "strip piece \<noteq> [] \<Longrightarrow> tailok (strip piece)"
      using strip_ends [of piece] nosep_strip [of piece] "1.prems"
      by (simp add: tailok_def piece_ok_def)
    then show ?thesis using Nil by (simp add: full_sentences_def last_piece_def)
  next
    case (Cons c cs)
    show ?thesis
    proof (cases "is_punct c \<and> sepstart cs")
      case True
      let ?w' = "dropWhile isspace (dropWhile is_punct cs)"
      have "length ?w' \<le> length (dropWhile is_punct cs)" by (rule length_dropWhile_le)
      also have "\<dots> \<le> length cs" by (rule length_dropWhile_le)
      finally have "length ?w' < length w" using Cons by simp
      then have ih: "shape (full_sentences (re_split_from [] ?w'))"
        using "1.IH" piece_ok_cut by blast
      have e: "re_split_from piece w = piece # (c # takeWhile is_punct cs) # re_split_from [] ?w'"
        using True Cons by (simp add: re_split_from_cut)
      show ?thesis
      proof (cases "strip piece = []")
        case True
        then show ?thesis using e ih by (simp add: full_sentences_Cons2 re_split_from_not_Nil)
      next
        case False
        have "closed (strip (strip piece @ c # takeWhile is_punct cs))"
          using closed_strip_piece "1.prems" Cons True False by blast
        then show ?thesis
          using e ih False by (simp add: full_sentences_Cons2 re_split_from_not_Nil shape_Cons)
      qed
    next
      case False
      have "piece_ok (piece @ [c]) cs" using piece_ok_keep "1.prems" Cons False by blast
      moreover have "length cs < length w" using Cons by simp
      ultimately have "shape (full_sentences (re_split_from (piece @ [c]) cs))"
        using "1.IH" by blast
      then show ?thesis using False Cons by (simp add: re_split_from_keep)
    qed
  qed
qed

lemma shape_remove_duplicates: "shape xs \<Longrightarrow> shape (remove_duplicates seen xs)"
proof (induction xs arbitrary: seen)
  case Nil
  then show ?case by simp
next
  case (Cons x xs)
  have sh: "shape xs" using Cons.prems by (rule shape_tl)
  show ?case
  proof (cases "xs = []")
    case True
    then show ?thesis using Cons.prems by simp
  next
    case False
    then have "closed x" using Cons.prems shape_hd by blast
    then show ?thesis using Cons.IH [OF sh] by (simp add: shape_Cons)
  qed
qed

lemma remove_duplicates_idem:
  "remove_duplicates seen (remove_duplicates seen xs) = remove_duplicates seen xs"
  by (induction xs arbitrary: seen) simp_all

lemma shape_cleaned: "text \<noteq> [] \<Longrightarrow> \<not> isspace (hd text) \<Longrightarrow> shape (cleaned text)"
  unfolding cleaned_def re_split_def
  by (intro shape_remove_duplicates shape_full_sentences) (simp add: piece_ok_def)

lemma cleaned_join:
  assumes "shape xs" "xs \<noteq> []" "remove_duplicates {} xs = xs"
  shows "strip (join '' '' xs) = join '' '' xs" and "cleaned (join '' '' xs) = xs"
proof -
  have "tailok (hd xs)" "tailok (last xs)" using assms(1,2) shape_elem by simp_all
  then show "strip (join '' '' xs) = join '' '' xs"
    using join_ends [OF assms(1,2)] by (simp add: strip_id tailok_def)
  show "cleaned (join '' '' xs) = xs"
    using full_sentences_join [OF assms(1,2)] assms(3) by (simp add: cleaned_def re_split_def)
qed

lemma clean_str_idempotent: "clean_str (clean_str s) = clean_str s"
proof (cases "strip s = []")
  case True
  then have "clean_str s = []" by (simp add: clean_str_def)
  then show ?thesis by (simp add: clean_str_def strip_def lstrip_def rstrip_def)
next
  case False
  let ?t = "strip s"
  have t: "\<not> isspace (hd ?t)" "\<not> isspace (last ?t)" using strip_ends [OF False] by simp_all
  have st: "strip ?t = ?t" using False t by (simp add: strip_id)
  have sh: "shape (cleaned ?t)" using False t(1) by (rule shape_cleaned)
  show ?thesis
  proof (cases "cleaned ?t = []")
    case True
    then have "clean_str s = ?t" using False by (simp add: clean_str_def)
    moreover have "clean_str ?t = ?t" using False True st by (simp add: clean_str_def)
    ultimately show ?thesis by simp
  next
    case ne: False
    let ?r = "join '' '' (cleaned ?t)"
    have rd: "remove_duplicates {} (cleaned ?t) = cleaned ?t"
      by (simp add: cleaned_def remove_duplicates_idem)
    have r: "?r \<noteq> []" using join_ends [OF sh ne] by simp
    then have c1: "clean_str s = ?r" using False by (simp add: clean_str_def Let_def)
    have "strip ?r = ?r" "cleaned ?r = cleaned ?t"
      using cleaned_join [OF sh ne rd] by simp_all
    then have "clean_str ?r = ?r" using r by (simp add: clean_str_def Let_def)
    with c1 show ?thesis by simp
  qed
qed


lemma remove_duplicates_long:
  "x \<in> set (remove_duplicates seen xs) \<Longrightarrow> 5 < length (normalized x)"
  by (induction xs arbitrary: seen) (auto split: if_splits)

lemma remove_duplicates_nonempty:
  "x \<in> set (remove_duplicates seen xs) \<Longrightarrow> x \<noteq> []"
  using remove_duplicates_long [of x seen xs]
  by (auto simp: normalized_def lower_def split_def)

lemma join_Nil_iff: "\<forall>x \<in> set xs. x \<noteq> [] \<Longrightarrow> join sep xs = [] \<longleftrightarrow> xs = []"
  by (induction sep xs rule: join.induct) auto

lemma cleaned_Nil: "cleaned [] = []"
  by (simp add: cleaned_def re_split_def full_sentences_def last_piece_def strip_def
      lstrip_def rstrip_def)

lemma clean_str_cases:
  "clean_str s = (if cleaned (strip s) = [] then strip s else join '' '' (cleaned (strip s)))"
proof (cases "strip s = []")
  case True
  then show ?thesis by (simp add: clean_str_def cleaned_Nil)
next
  case False
  have "\<forall>x \<in> set (cleaned (strip s)). x \<noteq> []"
    unfolding cleaned_def using remove_duplicates_nonempty by blast
  then have "join '' '' (cleaned (strip s)) = [] \<longleftrightarrow> cleaned (strip s) = []"
    by (rule join_Nil_iff)
  then show ?thesis using False by (auto simp: clean_str_def Let_def)
qed

subsection \<open>The claims about the text cleaner\<close>

text \<open>
  C1, as stated, does not hold: on \<open>"A. A. B."\<close> the cleaner does not return
  \<open>"A. B."\<close>.
\<close>

theorem C1_counterexample:
  "clean_repetitive_text (Str ''A. A. B.'') \<noteq> Str ''A. B.''"
  by code_simp

text \<open>
  C1, amended: on \<open>"A. A. B."\<close> the cleaner returns the text unchanged, because every
  sentence of it has fewer than 6 normalized characters, none is kept, and the stripped
  input is returned instead of an empty result. On a text whose sentences have 6
  normalized characters or more the example holds: \<open>"Alpha one. ALPHA ONE. Beta two."\<close>
  gives \<open>"Alpha one. Beta two."\<close>, the duplicate being found by case-insensitive
  comparison and the order of first occurrence being kept.
\<close>

theorem C1_short_sentences_returned_unchanged:
  "clean_repetitive_text (Str ''A. A. B.'') = Str ''A. A. B.''
   \<and> cleaned ''A. A. B.'' = []
   \<and> clean_repetitive_text (Str ''Alpha one. ALPHA ONE. Beta two.'') = Str ''Alpha one. Beta two.''"
  by code_simp

theorem C1_short_sentences_returned_unchanged_witness:
  "clean_repetitive_text (Str ''A. A. B.'') = Str ''A. A. B.''"
  by (rule conjunct1 [OF C1_short_sentences_returned_unchanged])

text \<open>
  C2, as stated, does not hold: in \<open>"Hi. Hello world."\<close> the sentence \<open>"Hi."\<close> has
  3 normalized characters and occurs once, and the cleaner removes it.
\<close>

theorem C2_counterexample:
  "length (normalized ''Hi.'') < 6
   \<and> full_sentences (re_split (strip ''Hi. Hello world.'')) = [''Hi.'', ''Hello world.'']
   \<and> clean_repetitive_text (Str ''Hi. Hello world.'') = Str ''Hello world.''"
  by code_simp

text \<open>
  C2, amended: a sentence whose normalized form has fewer than 6 characters is never
  put into the list of kept sentences, whether it occurred before or not; every kept
  sentence has more than 5 normalized characters. Short sentences reach the output only
  when no sentence at all is kept: then the stripped input is returned whole, and
  otherwise the result is the kept sentences joined by single spaces.
\<close>

theorem C2_short_sentences_never_kept:
  "(\<forall>sentence \<in> set (cleaned text). 5 < length (normalized sentence))
   \<and> clean_str s = (if cleaned (strip s) = [] then strip s else join '' '' (cleaned (strip s)))"
  using remove_duplicates_long clean_str_cases unfolding cleaned_def by blast

theorem C2_short_sentences_never_kept_witness:
  "5 < length (normalized ''Hello world.'')
   \<and> clean_str ''Hi. Hello world.'' = ''Hello world.''"
proof -
  have c: "cleaned ''Hi. Hello world.'' = [''Hello world.'']" by code_simp
  have s: "strip ''Hi. Hello world.'' = ''Hi. Hello world.''" by code_simp
  show ?thesis
    using C2_short_sentences_never_kept [of "''Hi. Hello world.''" "''Hi. Hello world.''"]
    unfolding s c by simp
qed

text \<open>
  C3: cleaning is idempotent. For every argument, and so for every string, cleaning the
  result of the cleaner again returns that result.
\<close>

theorem C3_clean_idempotent:
  "clean_repetitive_text (clean_repetitive_text text) = clean_repetitive_text text"
  by (cases "text") (simp_all add: clean_repetitive_text_def isna_def clean_str_idempotent)

theorem C3_clean_idempotent_witness:
  "clean_repetitive_text (clean_repetitive_text (Str ''Alpha one. ALPHA ONE. Beta two.''))
     = Str ''Alpha one. Beta two.''"
proof -
  have "clean_repetitive_text (Str ''Alpha one. ALPHA ONE. Beta two.'') = Str ''Alpha one. Beta two.''"
    by code_simp
  then show ?thesis
    by (rule trans [OF C3_clean_idempotent])
qed

section \<open>Properties of the section grouper and the page index\<close>

lemma map_of_append_to:
  "map_of (append_to k v d) k' =
     (if k' = k then Some ((case map_of d k of None \<Rightarrow> [] | Some vs \<Rightarrow> vs) @ [v]) else map_of d k')"
  by (induction d) auto

lemma keys_append_to: "fst ` set (append_to k v d) = insert k (fst ` set d)"
proof (induction k v d rule: append_to.induct)
  case (1 k v)
  then show ?case by simp
next
  case (2 k v name evs d)
  show ?case
  proof (cases "k = name")
    case True
    then show ?thesis by simp
  next
    case False
    then show ?thesis using 2 by (simp add: insert_commute)
  qed
qed

lemma distinct_append_to: "distinct (map fst d) \<Longrightarrow> distinct (map fst (append_to k v d))"
  by (induction d) (auto simp: keys_append_to)

lemma group_step_eq:
  "group_step sections event =
     (case section_key event of None \<Rightarrow> sections | Some name \<Rightarrow> append_to name event sections)"
  by (simp add: group_step_def section_key_def Let_def split: cell.splits)

lemma map_of_foldl_group:
  "map_of (foldl group_step acc evs) name =
     (let es = filter (\<lambda>e. section_key e = Some name) evs
      in case map_of acc name of
           None \<Rightarrow> (if es = [] then None else Some es)
         | Some xs \<Rightarrow> Some (xs @ es))"
proof (induction evs arbitrary: acc)
  case Nil
  then show ?case by (simp split: option.splits)
next
  case (Cons e evs)
  have f: "foldl group_step acc (e # evs) = foldl group_step (group_step acc e) evs"
    by simp
  show ?case
  proof (cases "section_key e")
    case None
    then have "group_step acc e = acc" by (simp add: group_step_eq)
    then show ?thesis unfolding f Cons.IH using None by simp
  next
    case (Some k)
    then have g: "group_step acc e = append_to k e acc" by (simp add: group_step_eq)
    show ?thesis unfolding f Cons.IH g using Some
      by (simp add: map_of_append_to Let_def split: option.splits)
  qed
qed

lemma distinct_group_step: "distinct (map fst acc) \<Longrightarrow> distinct (map fst (group_step acc e))"
  by (simp add: group_step_eq distinct_append_to split: option.splits)

lemma distinct_foldl_group:
  "distinct (map fst acc) \<Longrightarrow> distinct (map fst (foldl group_step acc evs))"
proof (induction evs arbitrary: acc)
  case Nil
  then show ?case by simp
next
  case (Cons e evs)
  have "distinct (map fst (group_step acc e))" using Cons.prems by (rule distinct_group_step)
  then show ?case using Cons.IH by simp
qed

text \<open>The grouped sections are a dictionary: no section name occurs twice.\<close>

lemma distinct_group_events: "distinct (map fst (group_events_by_section evs))"
  unfolding group_events_by_section_def by (rule distinct_foldl_group) simp

lemma map_of_group:
  "map_of (group_events_by_section evs) name =
     (let es = filter (\<lambda>e. section_key e = Some name) evs
      in if es = [] then None else Some es)"
  by (simp add: group_events_by_section_def map_of_foldl_group)

lemma section_key_Some:
  "section_key e = Some name \<longleftrightarrow>
     dict_get e ''Department/Section'' (Str ''OTHER ACTIVITIES'') = Str name"
  by (simp add: section_key_def split: cell.splits)

lemma section_key_None:
  "section_key e = None \<longleftrightarrow> isna (dict_get e ''Department/Section'' (Str ''OTHER ACTIVITIES''))"
  by (simp add: section_key_def isna_def split: cell.splits)

subsection \<open>The claims about the section grouper\<close>

text \<open>
  C4, as stated, does not hold: an event with the title \<open>Hackathon\<close> whose
  \<open>Department/Section\<close> cell is blank (\<open>NaN\<close>) is put into no section at all, so the
  grouped sections are empty and the event is dropped.
\<close>

theorem C4_counterexample:
  "notna (dict_get [(''Event Title'', Str ''Hackathon''), (''Department/Section'', NaN)]
            ''Event Title'' NaN)
   \<and> isna (dict_get [(''Event Title'', Str ''Hackathon''), (''Department/Section'', NaN)]
            ''Department/Section'' (Str ''OTHER ACTIVITIES''))
   \<and> group_events_by_section
        [[(''Event Title'', Str ''Hackathon''), (''Department/Section'', NaN)]] = []"
  by code_simp

text \<open>
  C4, amended: the list of a section is made of the events whose \<open>Department/Section\<close>
  value, with \<open>OTHER ACTIVITIES\<close> taken when the record has no such key, is the text
  of that name, in source order, and a name without such an event is no section. So an
  event whose record lacks the key is in the \<open>OTHER ACTIVITIES\<close> bucket, while an event
  whose \<open>Department/Section\<close> is null (\<open>None\<close> or \<open>NaN\<close>) is skipped by the
  \<open>pd.notna\<close> guard and is in no section.
\<close>

theorem C4_sections_of_events:
  "map_of (group_events_by_section evs) name =
     (let es = filter (\<lambda>e. dict_get e ''Department/Section'' (Str ''OTHER ACTIVITIES'') = Str name)
                 evs
      in if es = [] then None else Some es)
   \<and> (e \<in> set evs \<and> map_of e ''Department/Section'' = None \<longrightarrow>
        (\<exists>es. map_of (group_events_by_section evs) ''OTHER ACTIVITIES'' = Some es \<and> e \<in> set es))
   \<and> (isna (dict_get e ''Department/Section'' (Str ''OTHER ACTIVITIES'')) \<longrightarrow>
        (\<forall>es. map_of (group_events_by_section evs) name = Some es \<longrightarrow> e \<notin> set es))"
proof (intro conjI impI allI)
  show g: "map_of (group_events_by_section evs) name =
     (let es = filter (\<lambda>e. dict_get e ''Department/Section'' (Str ''OTHER ACTIVITIES'') = Str name)
                 evs
      in if es = [] then None else Some es)" for name
    by (simp add: map_of_group section_key_Some)
  {
    assume a: "e \<in> set evs \<and> map_of e ''Department/Section'' = None"
    then have "dict_get e ''Department/Section'' (Str ''OTHER ACTIVITIES'') = Str ''OTHER ACTIVITIES''"
      by (simp add: dict_get_def)
    with a have m: "e \<in> set (filter (\<lambda>e. dict_get e ''Department/Section'' (Str ''OTHER ACTIVITIES'')
                     = Str ''OTHER ACTIVITIES'') evs)"
      by simp
    then have "filter (\<lambda>e. dict_get e ''Department/Section'' (Str ''OTHER ACTIVITIES'')
                     = Str ''OTHER ACTIVITIES'') evs \<noteq> []"
      by (metis empty_iff list.set(1))
    with m show "\<exists>es. map_of (group_events_by_section evs) ''OTHER ACTIVITIES'' = Some es \<and> e \<in> set es"
      unfolding g by (simp add: Let_def)
  }
  {
    fix es
    assume n: "isna (dict_get e ''Department/Section'' (Str ''OTHER ACTIVITIES''))"
      and m: "map_of (group_events_by_section evs) name = Some es"
    from m have "es = filter (\<lambda>e. dict_get e ''Department/Section'' (Str ''OTHER ACTIVITIES'') = Str name) evs"
      unfolding g by (simp add: Let_def split: if_splits)
    moreover have "dict_get e ''Department/Section'' (Str ''OTHER ACTIVITIES'') \<noteq> Str name"
      using n by (auto simp: isna_def)
    ultimately show "e \<notin> set es" by simp
  }
qed

theorem C4_sections_of_events_witness:
  "map_of (group_events_by_section
      [[(''Event Title'', Str ''Quiz'')],
       [(''Event Title'', Str ''Hackathon''), (''Department/Section'', NaN)],
       [(''Event Title'', Str ''Talk''), (''Department/Section'', Str ''Tech'')]])
     ''OTHER ACTIVITIES'' = Some [[(''Event Title'', Str ''Quiz'')]]"
proof -
  have "filter (\<lambda>e. dict_get e ''Department/Section'' (Str ''OTHER ACTIVITIES'') = Str ''OTHER ACTIVITIES'')
      [[(''Event Title'', Str ''Quiz'')],
       [(''Event Title'', Str ''Hackathon''), (''Department/Section'', NaN)],
       [(''Event Title'', Str ''Talk''), (''Department/Section'', Str ''Tech'')]]
      = [[(''Event Title'', Str ''Quiz'')]]"
    by (simp add: dict_get_def)
  then show ?thesis
    using conjunct1 [OF C4_sections_of_events, of _ "''OTHER ACTIVITIES''"]
    by (simp add: Let_def)
qed

lemma map_of_page_fold_notin:
  "k \<notin> set xs \<Longrightarrow>
   map_of (foldl (\<lambda>m (idx, name). AList.update name (start_section_page + int idx) m) m0
             (enumerate n xs)) k = map_of m0 k"
  by (induction xs arbitrary: m0 n) (auto simp: update_conv')

lemma map_of_page_fold_nth:
  "distinct xs \<Longrightarrow> i < length xs \<Longrightarrow>
   map_of (foldl (\<lambda>m (idx, name). AList.update name (start_section_page + int idx) m) m0
             (enumerate n xs)) (xs ! i) = Some (start_section_page + int (n + i))"
proof (induction xs arbitrary: m0 n i)
  case Nil
  then show ?case by simp
next
  case (Cons x xs)
  show ?case
  proof (cases i)
    case 0
    then show ?thesis using Cons.prems by (simp add: map_of_page_fold_notin update_conv')
  next
    case (Suc j)
    then show ?thesis using Cons.prems Cons.IH [of j _ "Suc n"] by simp
  qed
qed

lemma section_page_map_nth:
  "distinct names \<Longrightarrow> i < length names \<Longrightarrow>
   map_of (section_page_map names) (names ! i) = Some (4 + int i)"
  using map_of_page_fold_nth [of names i "[]" 0]
  by (simp add: section_page_map_def start_section_page_def)

lemma sorted_sections_props:
  "distinct (map fst sections) \<Longrightarrow>
   sorted (sorted_sections sections) \<and> distinct (sorted_sections sections)
   \<and> set (sorted_sections sections) = fst ` set sections"
  by (simp add: sorted_sections_def)

lemma contents_rows_eq:
  "distinct names \<Longrightarrow>
   contents_rows names (section_page_map names) =
     map (\<lambda>i. (int i + 1, names ! i, Some (4 + int i))) [0..<length names]"
proof -
  assume d: "distinct names"
  have "enumerate 0 names = map (\<lambda>i. (i, names ! i)) [0..<length names]"
    by (rule nth_equalityI) (simp_all add: nth_enumerate_eq)
  then show ?thesis
    using d by (simp add: contents_rows_def section_page_map_nth)
qed

subsection \<open>The claim about the page index\<close>

text \<open>
  C6: for grouped sections (a dictionary, so with distinct keys) the sorted section names
  are sorted and distinct; the page map gives the name of rank \<open>i\<close> the page
  \<open>4 + i\<close>, so page numbers increase strictly with the rank and are unique; the section
  pages are emitted in the order of the sorted names, and the table of contents lists the
  names in that order with these page numbers; the sorted names \<open>Alpha\<close>, \<open>Beta\<close>,
  \<open>Gamma\<close> get the pages 4, 5 and 6.
\<close>

theorem C6_page_index:
  fixes sections :: "(string \<times> event list) list"
  defines "names \<equiv> sorted_sections sections"
  defines "page_map \<equiv> section_page_map names"
  assumes "distinct (map fst sections)"
  shows "sorted names \<and> distinct names \<and> set names = fst ` set sections
    \<and> (\<forall>i < length names. map_of page_map (names ! i) = Some (4 + int i))
    \<and> (\<forall>i j p q. i < j \<and> j < length names \<and> map_of page_map (names ! i) = Some p
          \<and> map_of page_map (names ! j) = Some q \<longrightarrow> p < q)
    \<and> inj_on (map_of page_map) (set names)
    \<and> map fst (section_pages sections names) = names
    \<and> contents_rows names page_map
         = map (\<lambda>i. (int i + 1, names ! i, Some (4 + int i))) [0..<length names]
    \<and> section_page_map [''Alpha'', ''Beta'', ''Gamma'']
         = [(''Alpha'', 4), (''Beta'', 5), (''Gamma'', 6)]"
proof -
  have p: "sorted names" "distinct names" "set names = fst ` set sections"
    using sorted_sections_props [OF assms(3)] by (simp_all add: names_def)
  have nth: "map_of page_map (names ! i) = Some (4 + int i)" if "i < length names" for i
    using that p(2) by (simp add: page_map_def section_page_map_nth)
  have inc: "p < q" if "i < j" "j < length names" "map_of page_map (names ! i) = Some p"
      "map_of page_map (names ! j) = Some q" for i j p q
    using that nth [of i] nth [of j] by simp
  have inj: "inj_on (map_of page_map) (set names)"
  proof (rule inj_onI)
    fix x y
    assume "x \<in> set names" "y \<in> set names" and e: "map_of page_map x = map_of page_map y"
    then obtain i j where "i < length names" "x = names ! i" "j < length names" "y = names ! j"
      by (metis in_set_conv_nth)
    with e nth [of i] nth [of j] show "x = y" by simp
  qed
  have pages: "map fst (section_pages sections names) = names"
    by (simp add: section_pages_def comp_def)
  have rows: "contents_rows names page_map
         = map (\<lambda>i. (int i + 1, names ! i, Some (4 + int i))) [0..<length names]"
    unfolding page_map_def using p(2) by (rule contents_rows_eq)
  have ex: "section_page_map [''Alpha'', ''Beta'', ''Gamma'']
         = [(''Alpha'', 4), (''Beta'', 5), (''Gamma'', 6)]"
    by (simp add: section_page_map_def start_section_page_def enumerate_simps)
  show ?thesis using p nth inc inj pages rows ex by blast
qed

theorem C6_page_index_witness:
  "distinct (map fst [(''Gamma'', [] :: event list), (''Alpha'', []), (''Beta'', [])])
   \<and> map_of (section_page_map (sorted_sections [(''Gamma'', []), (''Alpha'', []), (''Beta'', [])]))
        ''Beta'' = Some 5"
proof -
  let ?s = "[(''Gamma'', [] :: event list), (''Alpha'', []), (''Beta'', [])]"
  have d: "distinct (map fst ?s)" by simp
  have n: "sorted_sections ?s = [''Alpha'', ''Beta'', ''Gamma'']" by code_simp
  have "1 < length (sorted_sections ?s) \<longrightarrow>
          map_of (section_page_map (sorted_sections ?s)) (sorted_sections ?s ! 1) = Some (4 + int 1)"
    using C6_page_index [OF d] by blast
  then show ?thesis using d unfolding n by simp
qed

section \<open>Properties of the image resolver\<close>

lemma header_keys_eq:
  "header_keys =
     [(''college_logo'', ''static/images/college_logo.png''),
      (''orbits_logo'', ''static/images/orbits_logo.png''),
      (''naac_badge'', ''static/images/naac_badge.png''),
      (''vision'', ''static/images/vision.png'')]"
  by (simp add: header_keys_def path_join_def)

lemma header_path_eq:
  "(key, path) \<in> set header_keys \<Longrightarrow>
   replace_backslash (path_join [''static'', ''images'', basename path]) = path"
  unfolding header_keys_eq by (auto simp: replace_backslash_def path_join_def basename_def)

lemma header_step_eq:
  "(key, path) \<in> set header_keys \<Longrightarrow>
   header_step exists image_paths (key, path) =
     (if exists path then AList.update key path image_paths else image_paths)"
  by (simp add: header_step_def header_path_eq)

lemma map_of_header_paths:
  "map_of (foldl (header_step exists) [] header_keys) key =
     (case map_of header_keys key of
        None \<Rightarrow> None
      | Some path \<Rightarrow> if exists path then Some path else None)"
proof -
  have "foldl (header_step exists) [] header_keys =
      foldl (\<lambda>m (k, p). if exists p then AList.update k p m else m) [] header_keys"
    by (rule foldl_cong) (auto simp: header_step_eq)
  also have "map_of \<dots> key = (case map_of header_keys key of
        None \<Rightarrow> None
      | Some path \<Rightarrow> if exists path then Some path else None)"
    unfolding header_keys_eq by (simp add: update_conv')
  finally show ?thesis .
qed

lemma embed_fold_skip:
  "map_of image_paths key \<noteq> None \<Longrightarrow>
   map_of (foldl (embed_step exists encode_image image_paths) acc entries) key = map_of acc key"
proof (induction entries arbitrary: acc)
  case Nil
  then show ?case by simp
next
  case (Cons entry entries)
  obtain k p where e: "entry = (k, p)" by (cases entry)
  have "map_of (embed_step exists encode_image image_paths acc entry) key = map_of acc key"
    using Cons.prems e by (auto simp: embed_step_def update_conv' split: option.splits)
  then show ?case using Cons.IH [OF Cons.prems] by simp
qed

lemma embed_step_other:
  "fst entry \<noteq> key \<Longrightarrow>
   map_of (embed_step exists encode_image image_paths acc entry) key = map_of acc key"
  by (cases entry) (auto simp: embed_step_def update_conv' split: option.splits)

lemma embed_fold_other:
  "key \<notin> fst ` set entries \<Longrightarrow>
   map_of (foldl (embed_step exists encode_image image_paths) acc entries) key = map_of acc key"
proof (induction entries arbitrary: acc)
  case Nil
  then show ?case by simp
next
  case (Cons entry entries)
  from Cons.prems have "fst entry \<noteq> key" "key \<notin> fst ` set entries" by auto
  then show ?case using Cons.IH embed_step_other by simp
qed

lemma embed_fold_hit:
  assumes "distinct (map fst entries)" "map_of entries key = Some path"
    and "map_of image_paths key = None" "exists path"
    and "encode_image path = Some encoded" "encoded \<noteq> []"
  shows "map_of (foldl (embed_step exists encode_image image_paths) acc entries) key = Some encoded"
  using assms(1,2)
proof (induction entries arbitrary: acc)
  case Nil
  then show ?case by simp
next
  case (Cons entry entries)
  obtain k p where e: "entry = (k, p)" by (cases entry)
  show ?case
  proof (cases "k = key")
    case True
    with Cons.prems e have p: "p = path" and n: "key \<notin> fst ` set entries" by auto
    have "map_of (embed_step exists encode_image image_paths acc entry) key = Some encoded"
      using e True p assms(3-6) by (simp add: embed_step_def update_conv')
    then show ?thesis using embed_fold_other [OF n] by simp
  next
    case False
    with Cons.prems e have "distinct (map fst entries)" "map_of entries key = Some path" by auto
    then show ?thesis using Cons.IH by simp
  qed
qed

subsection \<open>The claim about the image resolver\<close>

text \<open>
  C7, as stated, does not hold: when the static file of the header key
  \<open>college_logo\<close> does not exist and the caller maps that key to an existing file, the
  resolver produces an inline payload for the header key and no path.
\<close>

theorem C7_counterexample:
  "map_of header_keys ''college_logo'' \<noteq> None
   \<and> convert_images_to_base64 (\<lambda>path. path = ''uploads/logo.png'') (\<lambda>path. Some ''QUJD'')
        [(''college_logo'', ''uploads/logo.png'')]
       = ([(''college_logo'', ''QUJD'')], [])"
  by (simp add: header_keys_eq convert_images_to_base64_def header_step_def embed_step_def)

text \<open>
  C7, amended: a header key whose static file exists resolves to the relative path of
  that file and never to an inline payload, whatever the mapping of the caller holds; no
  key has both a path and a payload; only header keys get a path. A header key whose
  static file does not exist is treated like any other key: when the caller maps it to
  an existing file that encodes to a non-empty text, it gets that inline payload.
\<close>

theorem C7_header_path_wins:
  fixes exists :: "string \<Rightarrow> bool" and encode_image :: "string \<Rightarrow> string option"
    and self_image_paths :: "(string \<times> string) list"
  defines "embedded_images \<equiv> fst (convert_images_to_base64 exists encode_image self_image_paths)"
  defines "image_paths \<equiv> snd (convert_images_to_base64 exists encode_image self_image_paths)"
  shows "(map_of header_keys key = Some path \<and> exists path \<longrightarrow>
            map_of embedded_images key = None \<and> map_of image_paths key = Some path)
    \<and> \<not> (map_of embedded_images key \<noteq> None \<and> map_of image_paths key \<noteq> None)
    \<and> (map_of image_paths key \<noteq> None \<longrightarrow> map_of header_keys key \<noteq> None)
    \<and> (map_of header_keys key = Some path \<and> \<not> exists path \<and> distinct (map fst self_image_paths)
          \<and> map_of self_image_paths key = Some upload \<and> exists upload
          \<and> encode_image upload = Some encoded \<and> encoded \<noteq> [] \<longrightarrow>
            map_of embedded_images key = Some encoded \<and> map_of image_paths key = None)"
proof -
  let ?paths = "foldl (header_step exists) [] header_keys"
  have ip: "image_paths = ?paths"
    by (simp add: image_paths_def convert_images_to_base64_def Let_def)
  have ei: "embedded_images = foldl (embed_step exists encode_image ?paths) [] self_image_paths"
    by (simp add: embedded_images_def convert_images_to_base64_def Let_def)
  have skip: "map_of embedded_images key = None" if "map_of image_paths key \<noteq> None"
    using that embed_fold_skip [of ?paths key exists encode_image "[]" self_image_paths]
    unfolding ip ei by simp
  have a: "map_of embedded_images key = None \<and> map_of image_paths key = Some path"
    if "map_of header_keys key = Some path \<and> exists path"
  proof -
    have "map_of image_paths key = Some path"
      unfolding ip using that by (simp add: map_of_header_paths)
    then show ?thesis using skip by simp
  qed
  have c: "map_of header_keys key \<noteq> None" if "map_of image_paths key \<noteq> None"
    using that unfolding ip by (simp add: map_of_header_paths split: option.splits)
  have d: "map_of embedded_images key = Some encoded \<and> map_of image_paths key = None"
    if h: "map_of header_keys key = Some path \<and> \<not> exists path \<and> distinct (map fst self_image_paths)
          \<and> map_of self_image_paths key = Some upload \<and> exists upload
          \<and> encode_image upload = Some encoded \<and> encoded \<noteq> []"
  proof -
    have n: "map_of ?paths key = None" using h by (simp add: map_of_header_paths)
    have "map_of embedded_images key = Some encoded"
      unfolding ei
      using embed_fold_hit [where entries = self_image_paths and key = key and path = upload
          and image_paths = "?paths" and exists = exists and encode_image = encode_image
          and encoded = encoded and acc = "[]"] h n
      by blast
    then show ?thesis using n ip by simp
  qed
  have c1: "map_of header_keys key = Some path \<and> exists path \<longrightarrow>
            map_of embedded_images key = None \<and> map_of image_paths key = Some path"
    using a by (rule impI)
  have c2: "\<not> (map_of embedded_images key \<noteq> None \<and> map_of image_paths key \<noteq> None)"
  proof
    assume b: "map_of embedded_images key \<noteq> None \<and> map_of image_paths key \<noteq> None"
    then have "map_of embedded_images key = None" using skip by simp
    with b show False by simp
  qed
  have c3: "map_of image_paths key \<noteq> None \<longrightarrow> map_of header_keys key \<noteq> None"
    using c by (rule impI)
  have c4: "map_of header_keys key = Some path \<and> \<not> exists path \<and> distinct (map fst self_image_paths)
          \<and> map_of self_image_paths key = Some upload \<and> exists upload
          \<and> encode_image upload = Some encoded \<and> encoded \<noteq> [] \<longrightarrow>
            map_of embedded_images key = Some encoded \<and> map_of image_paths key = None"
    using d by (rule impI)
  show ?thesis using c1 c2 c3 c4 by (intro conjI)
qed

theorem C7_header_path_wins_witness:
  "map_of (fst (convert_images_to_base64 (\<lambda>path. True) (\<lambda>path. Some ''QUJD'')
             [(''college_logo'', ''uploads/logo.png'')])) ''college_logo'' = None
   \<and> map_of (snd (convert_images_to_base64 (\<lambda>path. True) (\<lambda>path. Some ''QUJD'')
             [(''college_logo'', ''uploads/logo.png'')])) ''college_logo''
       = Some ''static/images/college_logo.png''"
proof -
  have "map_of header_keys ''college_logo'' = Some ''static/images/college_logo.png''"
    by (simp add: header_keys_eq)
  then show ?thesis
    using C7_header_path_wins [where key = "''college_logo''"
        and path = "''static/images/college_logo.png''" and exists = "\<lambda>path. True"
        and encode_image = "\<lambda>path. Some ''QUJD''"
        and self_image_paths = "[(''college_logo'', ''uploads/logo.png'')]"]
    by simp
qed

section \<open>Properties of the record loader\<close>

lemma row_lookup_missing: "key \<notin> set cols \<Longrightarrow> row_lookup cols row key = Inl (KeyError key)"
  by (induction cols arbitrary: row) auto

lemma row_lookup_padded:
  "length cols \<le> n \<Longrightarrow>
   row_lookup cols row key =
     (case map_of (zip cols (row @ replicate n NaN)) key of
        None \<Rightarrow> Inl (KeyError key)
      | Some v \<Rightarrow> Inr v)"
proof (induction cols arbitrary: row n)
  case Nil
  then show ?case by simp
next
  case (Cons c cs)
  show ?case
  proof (cases row)
    case Nil
    from Cons.prems obtain m where n: "n = Suc m" and m: "length cs \<le> m"
      by (cases n) auto
    show ?thesis using Nil n Cons.IH [OF m, of "[]"] by (simp add: first_cell_def)
  next
    case (Cons v r)
    from Cons.prems have m: "length cs \<le> n" by simp
    show ?thesis using Cons Cons.IH [OF m, of r] by (simp add: first_cell_def)
  qed
qed

lemma row_lookup_found: "key \<in> set cols \<Longrightarrow> row_lookup cols row key = Inr (cell_of cols row key)"
proof -
  assume k: "key \<in> set cols"
  have "\<exists>v. row_lookup cols row key = Inr v"
    using k by (induction cols arbitrary: row) auto
  then show ?thesis
    using row_lookup_padded [of cols "length cols" row key]
    by (auto simp: cell_of_def split: option.splits)
qed

lemma row_lookup_Inl:
  "row_lookup cols row key = Inl c \<Longrightarrow> c = KeyError key \<and> key \<notin> set cols"
  using row_lookup_found [of key cols row] row_lookup_missing [of key cols row]
  by (cases "key \<in> set cols") auto

lemma field_value_from_ok:
  "(\<exists>r. field_value_from d cols rws = Inr r) \<longleftrightarrow>
     (\<forall>row \<in> set rws.
        ''Field'' \<in> set cols
        \<and> (notna (cell_of cols row ''Field'') \<longrightarrow> ''Value'' \<in> set cols))"
proof (induction rws arbitrary: d)
  case Nil
  then show ?case by simp
next
  case (Cons row rws)
  show ?case
  proof (cases "''Field'' \<in> set cols")
    case False
    then have "row_lookup cols row ''Field'' = Inl (KeyError ''Field'')"
      by (rule row_lookup_missing)
    then show ?thesis using False by auto
  next
    case f: True
    then have lf: "row_lookup cols row ''Field'' = Inr (cell_of cols row ''Field'')"
      by (rule row_lookup_found)
    show ?thesis
    proof (cases "notna (cell_of cols row ''Field'')")
      case False
      then show ?thesis using lf f Cons.IH [of d] by simp
    next
      case True
      show ?thesis
      proof (cases "''Value'' \<in> set cols")
        case v: True
        then have "row_lookup cols row ''Value'' = Inr (cell_of cols row ''Value'')"
          by (rule row_lookup_found)
        then show ?thesis
          using lf f True v
            Cons.IH [of "AList.update (cell_of cols row ''Field'') (cell_of cols row ''Value'') d"]
          by simp
      next
        case v: False
        then have "row_lookup cols row ''Value'' = Inl (KeyError ''Value'')"
          by (rule row_lookup_missing)
        then show ?thesis using lf True v by simp
      qed
    qed
  qed
qed

lemma field_value_from_Inl:
  "field_value_from d cols rws = Inl c \<Longrightarrow>
   (c = KeyError ''Field'' \<and> ''Field'' \<notin> set cols)
   \<or> (c = KeyError ''Value'' \<and> ''Value'' \<notin> set cols)"
proof (induction rws arbitrary: d)
  case Nil
  then show ?case by simp
next
  case (Cons row rws)
  show ?case
  proof (cases "row_lookup cols row ''Field''")
    case (Inl e)
    then show ?thesis using Cons.prems row_lookup_Inl [of cols row "''Field''" e] by simp
  next
    case f: (Inr field)
    show ?thesis
    proof (cases "notna field")
      case False
      then show ?thesis using f Cons.prems Cons.IH [of d] by simp
    next
      case True
      show ?thesis
      proof (cases "row_lookup cols row ''Value''")
        case (Inl e)
        then show ?thesis
          using f True Cons.prems row_lookup_Inl [of cols row "''Value''" e] by simp
      next
        case (Inr v)
        then show ?thesis
          using f True Cons.prems Cons.IH [of "AList.update field v d"] by simp
      qed
    qed
  qed
qed

lemma field_value_dict_ok: "(\<exists>r. field_value_dict df = Inr r) \<longleftrightarrow> \<not> lacks_field_value df"
proof -
  have "(\<exists>r. field_value_dict df = Inr r) \<longleftrightarrow>
      (\<forall>row \<in> set (rows df).
        ''Field'' \<in> set (columns df)
        \<and> (notna (cell_of (columns df) row ''Field'') \<longrightarrow> ''Value'' \<in> set (columns df)))"
    unfolding field_value_dict_def by (rule field_value_from_ok)
  also have "\<dots> \<longleftrightarrow> \<not> lacks_field_value df"
  proof (cases "rows df")
    case Nil
    then show ?thesis by (simp add: lacks_field_value_def)
  next
    case (Cons row rest)
    then show ?thesis unfolding lacks_field_value_def by auto
  qed
  finally show ?thesis .
qed

lemma dropna_records_ok: "(\<exists>r. dropna_records key df = Inr r) \<longleftrightarrow> key \<in> set (columns df)"
  by (simp add: dropna_records_def)

lemma dropna_records_Inl:
  "dropna_records key df = Inl c \<longleftrightarrow> c = KeyError key \<and> key \<notin> set (columns df)"
  by (auto simp: dropna_records_def)

lemma code_after_rename:
  "''Code'' \<in> set (columns (rename_description df)) \<longleftrightarrow> ''Code'' \<in> strip ` set (columns df)"
proof -
  let ?f = "\<lambda>c. if strip c = ''Objective'' \<or> strip c = ''Outcome'' then ''Description'' else strip c"
  have f: "?f c = ''Code'' \<longleftrightarrow> strip c = ''Code''" for c
  proof (cases "strip c = ''Objective'' \<or> strip c = ''Outcome''")
    case True
    then show ?thesis by auto
  next
    case False
    then show ?thesis by simp
  qed
  have cols: "columns (rename_description df) = map ?f (columns df)"
    by (simp add: rename_description_def)
  have "''Code'' \<in> set (columns (rename_description df)) \<longleftrightarrow> (\<exists>c \<in> set (columns df). ?f c = ''Code'')"
    unfolding cols by (simp only: set_map image_iff) metis
  also have "\<dots> \<longleftrightarrow> (\<exists>c \<in> set (columns df). strip c = ''Code'')"
    unfolding f ..
  also have "\<dots> \<longleftrightarrow> ''Code'' \<in> strip ` set (columns df)"
    by (simp only: image_iff) metis
  finally show ?thesis .
qed

lemma and_then_Inr_iff: "and_then x f = Inr y \<longleftrightarrow> (\<exists>a. x = Inr a \<and> f a = Inr y)"
  by (cases x) simp_all

lemma and_then_Inl_iff:
  "and_then x f = Inl e \<longleftrightarrow> x = Inl e \<or> (\<exists>a. x = Inr a \<and> f a = Inl e)"
  by (cases x) simp_all

lemma read_excel_Inr_iff: "read_excel wb name = Inr df \<longleftrightarrow> map_of wb name = Some df"
  by (simp add: read_excel_def split: option.splits)

lemma read_excel_Inl_iff:
  "read_excel wb name = Inl c \<longleftrightarrow> map_of wb name = None \<and> c = WorksheetNotFound name"
  by (auto simp: read_excel_def split: option.splits)

lemma in_sheet_names: "name \<in> set (sheet_names wb) \<longleftrightarrow> map_of wb name \<noteq> None"
  by (simp add: sheet_names_def map_of_eq_None_iff)

lemma load_info_ok:
  "(\<exists>r. load_info wb = Inr r) \<longleftrightarrow>
     (\<exists>df. map_of wb ''Newsletter Info'' = Some df \<and> \<not> lacks_field_value df)"
  by (simp add: load_info_def and_then_Inr_iff read_excel_Inr_iff flip: field_value_dict_ok) blast

lemma load_editorial_ok:
  "(\<exists>r. load_editorial wb = Inr r) \<longleftrightarrow>
     (\<exists>df. map_of wb ''Editorial Board'' = Some df \<and> ''Role'' \<in> set (columns df))"
  by (simp add: load_editorial_def and_then_Inr_iff read_excel_Inr_iff flip: dropna_records_ok)
     blast

lemma load_events_ok:
  "(\<exists>r. load_events wb = Inr r) \<longleftrightarrow>
     (\<exists>df. map_of wb ''Department Events'' = Some df \<and> ''Event Title'' \<in> set (columns df))"
  by (simp add: load_events_def and_then_Inr_iff read_excel_Inr_iff flip: dropna_records_ok)
     blast

lemma load_vision_mission_ok:
  "(\<exists>r. load_vision_mission wb = Inr r) \<longleftrightarrow>
     (\<forall>df. map_of wb ''Vision & Mission'' = Some df \<longrightarrow> ''Type'' \<in> set (columns df))"
proof (cases "map_of wb ''Vision & Mission''")
  case None
  then show ?thesis by (simp add: load_vision_mission_def in_sheet_names)
next
  case (Some df)
  then have "read_excel wb ''Vision & Mission'' = Inr df" by (simp add: read_excel_Inr_iff)
  then show ?thesis
    using Some dropna_records_ok [of "''Type''" df]
    by (simp add: load_vision_mission_def in_sheet_names)
qed

lemma load_peo_ok:
  "(\<exists>r. load_peo wb = Inr r) \<longleftrightarrow>
     (\<forall>df. map_of wb ''Program Objectives'' = Some df \<longrightarrow> ''Code'' \<in> strip ` set (columns df))"
proof (cases "map_of wb ''Program Objectives''")
  case None
  then show ?thesis by (simp add: load_peo_def in_sheet_names)
next
  case (Some df)
  then have "read_excel wb ''Program Objectives'' = Inr df" by (simp add: read_excel_Inr_iff)
  then show ?thesis
    using Some dropna_records_ok [of "''Code''" "rename_description df"] code_after_rename [of df]
    by (simp add: load_peo_def in_sheet_names)
qed

lemma load_pso_ok:
  "(\<exists>r. load_pso wb = Inr r) \<longleftrightarrow>
     (\<forall>df. map_of wb ''Program Outcomes'' = Some df \<longrightarrow> ''Code'' \<in> strip ` set (columns df))"
proof (cases "map_of wb ''Program Outcomes''")
  case None
  then show ?thesis by (simp add: load_pso_def in_sheet_names)
next
  case (Some df)
  then have "read_excel wb ''Program Outcomes'' = Inr df" by (simp add: read_excel_Inr_iff)
  then show ?thesis
    using Some dropna_records_ok [of "''Code''" "rename_description df"] code_after_rename [of df]
    by (simp add: load_pso_def in_sheet_names)
qed

lemma load_contact_ok:
  "(\<exists>r. load_contact wb = Inr r) \<longleftrightarrow>
     (\<forall>df. map_of wb ''Contact Info'' = Some df \<longrightarrow> \<not> lacks_field_value df)"
proof (cases "map_of wb ''Contact Info''")
  case None
  then show ?thesis by (simp add: load_contact_def in_sheet_names)
next
  case (Some df)
  then have "read_excel wb ''Contact Info'' = Inr df" by (simp add: read_excel_Inr_iff)
  then show ?thesis
    using Some field_value_dict_ok [of df]
    by (simp add: load_contact_def in_sheet_names)
qed

lemma read_sheets_Inr_iff:
  "read_sheets wb = Inr d \<longleftrightarrow>
     (\<exists>i e vm po ps ev c.
        load_info wb = Inr i \<and> load_editorial wb = Inr e \<and> load_vision_mission wb = Inr vm
        \<and> load_peo wb = Inr po \<and> load_pso wb = Inr ps \<and> load_events wb = Inr ev
        \<and> load_contact wb = Inr c
        \<and> d = \<lparr>info = i, editorial = e, vision_mission = vm, peo = po, pso = ps,
                 events = ev, contact = c\<rparr>)"
  unfolding read_sheets_def and_then_Inr_iff by auto

lemma read_sheets_ok: "(\<exists>d. read_sheets wb = Inr d) \<longleftrightarrow> loadable wb"
proof -
  have "(\<exists>d. read_sheets wb = Inr d) \<longleftrightarrow>
      (\<exists>r. load_info wb = Inr r) \<and> (\<exists>r. load_editorial wb = Inr r)
      \<and> (\<exists>r. load_vision_mission wb = Inr r) \<and> (\<exists>r. load_peo wb = Inr r)
      \<and> (\<exists>r. load_pso wb = Inr r) \<and> (\<exists>r. load_events wb = Inr r)
      \<and> (\<exists>r. load_contact wb = Inr r)"
    unfolding read_sheets_Inr_iff by blast
  also have "\<dots> \<longleftrightarrow> loadable wb"
    unfolding load_info_ok load_editorial_ok load_vision_mission_ok load_peo_ok load_pso_ok
      load_events_ok load_contact_ok loadable_def
    by blast
  finally show ?thesis .
qed

lemma load_data_ok: "(\<exists>d. load_data (Some wb) = Inr d) \<longleftrightarrow> loadable wb"
proof -
  have "(\<exists>d. load_data (Some wb) = Inr d) \<longleftrightarrow> (\<exists>d. read_sheets wb = Inr d)"
    by (cases "read_sheets wb") (simp_all add: load_data_def)
  then show ?thesis by (simp add: read_sheets_ok)
qed

text \<open>The cause that each of the seven steps can raise.\<close>

lemma field_value_dict_Inl2:
  "field_value_dict df = Inl c \<Longrightarrow>
   c = KeyError ''Field'' \<and> ''Field'' \<notin> set (columns df)
   \<or> c = KeyError ''Value'' \<and> ''Value'' \<notin> set (columns df)"
  unfolding field_value_dict_def by (rule field_value_from_Inl)

lemma load_info_cause: "load_info wb = Inl c \<Longrightarrow> names_cause wb c"
proof -
  assume a: "load_info wb = Inl c"
  show ?thesis
  proof (cases "map_of wb ''Newsletter Info''")
    case None
    then have "read_excel wb ''Newsletter Info'' = Inl (WorksheetNotFound ''Newsletter Info'')"
      by (simp add: read_excel_def)
    with a have "c = WorksheetNotFound ''Newsletter Info''" by (simp add: load_info_def)
    with None show ?thesis unfolding names_cause_def by (intro disjI1 conjI)
  next
    case (Some df)
    then have "read_excel wb ''Newsletter Info'' = Inr df" by (simp add: read_excel_def)
    with a have "field_value_dict df = Inl c" by (simp add: load_info_def)
    then have "c = KeyError ''Field'' \<and> ''Field'' \<notin> set (columns df)
        \<or> c = KeyError ''Value'' \<and> ''Value'' \<notin> set (columns df)"
      by (rule field_value_dict_Inl2)
    with Some have "\<exists>df. map_of wb ''Newsletter Info'' = Some df
              \<and> (c = KeyError ''Field'' \<and> ''Field'' \<notin> set (columns df)
                  \<or> c = KeyError ''Value'' \<and> ''Value'' \<notin> set (columns df))"
      by (intro exI [of _ df] conjI)
    then show ?thesis unfolding names_cause_def by (intro disjI2 [THEN disjI2, THEN disjI2] disjI1)
  qed
qed

lemma load_editorial_cause: "load_editorial wb = Inl c \<Longrightarrow> names_cause wb c"
proof -
  assume a: "load_editorial wb = Inl c"
  show ?thesis
  proof (cases "map_of wb ''Editorial Board''")
    case None
    then have "read_excel wb ''Editorial Board'' = Inl (WorksheetNotFound ''Editorial Board'')"
      by (simp add: read_excel_def)
    with a have "c = WorksheetNotFound ''Editorial Board''" by (simp add: load_editorial_def)
    with None have "map_of wb ''Editorial Board'' = None \<and> c = WorksheetNotFound ''Editorial Board''"
      by simp
    then show ?thesis unfolding names_cause_def by (rule disjI1 [THEN disjI2])
  next
    case (Some df)
    then have "read_excel wb ''Editorial Board'' = Inr df" by (simp add: read_excel_def)
    with a have "dropna_records ''Role'' df = Inl c" by (simp add: load_editorial_def)
    then have "c = KeyError ''Role'' \<and> ''Role'' \<notin> set (columns df)"
      using dropna_records_Inl by blast
    with Some have "\<exists>df. map_of wb ''Editorial Board'' = Some df
              \<and> c = KeyError ''Role'' \<and> ''Role'' \<notin> set (columns df)"
      by (intro exI [of _ df] conjI) simp_all
    then show ?thesis unfolding names_cause_def
      by (intro disjI2 [THEN disjI2, THEN disjI2, THEN disjI2] disjI1)
  qed
qed

lemma load_vision_mission_cause: "load_vision_mission wb = Inl c \<Longrightarrow> names_cause wb c"
proof -
  assume a: "load_vision_mission wb = Inl c"
  then have "''Vision & Mission'' \<in> set (sheet_names wb)"
    by (auto simp: load_vision_mission_def split: if_splits)
  then obtain df where df: "map_of wb ''Vision & Mission'' = Some df"
    by (auto simp: in_sheet_names)
  then have "read_excel wb ''Vision & Mission'' = Inr df" by (simp add: read_excel_Inr_iff)
  with a df have "dropna_records ''Type'' df = Inl c"
    by (simp add: load_vision_mission_def in_sheet_names)
  then have "c = KeyError ''Type'' \<and> ''Type'' \<notin> set (columns df)"
    using dropna_records_Inl by blast
  with df have "\<exists>df. map_of wb ''Vision & Mission'' = Some df
              \<and> c = KeyError ''Type'' \<and> ''Type'' \<notin> set (columns df)"
    by (intro exI [of _ df] conjI) simp_all
  then show ?thesis unfolding names_cause_def
    by (intro disjI2 [THEN disjI2, THEN disjI2, THEN disjI2, THEN disjI2] disjI1)
qed

lemma load_peo_cause: "load_peo wb = Inl c \<Longrightarrow> names_cause wb c"
proof -
  assume a: "load_peo wb = Inl c"
  then have "''Program Objectives'' \<in> set (sheet_names wb)"
    by (auto simp: load_peo_def split: if_splits)
  then obtain df where df: "map_of wb ''Program Objectives'' = Some df"
    by (auto simp: in_sheet_names)
  then have "read_excel wb ''Program Objectives'' = Inr df" by (simp add: read_excel_Inr_iff)
  with a df have "dropna_records ''Code'' (rename_description df) = Inl c"
    by (simp add: load_peo_def in_sheet_names)
  then have "c = KeyError ''Code'' \<and> ''Code'' \<notin> set (columns (rename_description df))"
    using dropna_records_Inl by blast
  then have "c = KeyError ''Code'' \<and> ''Code'' \<notin> strip ` set (columns df)"
    using code_after_rename [of df] by blast
  with df have "\<exists>df. map_of wb ''Program Objectives'' = Some df
              \<and> c = KeyError ''Code'' \<and> ''Code'' \<notin> strip ` set (columns df)"
    by (intro exI [of _ df] conjI) simp_all
  then show ?thesis unfolding names_cause_def
    by (intro disjI2 [THEN disjI2, THEN disjI2, THEN disjI2, THEN disjI2, THEN disjI2] disjI1)
qed

lemma load_pso_cause: "load_pso wb = Inl c \<Longrightarrow> names_cause wb c"
proof -
  assume a: "load_pso wb = Inl c"
  then have "''Program Outcomes'' \<in> set (sheet_names wb)"
    by (auto simp: load_pso_def split: if_splits)
  then obtain df where df: "map_of wb ''Program Outcomes'' = Some df"
    by (auto simp: in_sheet_names)
  then have "read_excel wb ''Program Outcomes'' = Inr df" by (simp add: read_excel_Inr_iff)
  with a df have "dropna_records ''Code'' (rename_description df) = Inl c"
    by (simp add: load_pso_def in_sheet_names)
  then have "c = KeyError ''Code'' \<and> ''Code'' \<notin> set (columns (rename_description df))"
    using dropna_records_Inl by blast
  then have "c = KeyError ''Code'' \<and> ''Code'' \<notin> strip ` set (columns df)"
    using code_after_rename [of df] by blast
  with df have "\<exists>df. map_of wb ''Program Outcomes'' = Some df
              \<and> c = KeyError ''Code'' \<and> ''Code'' \<notin> strip ` set (columns df)"
    by (intro exI [of _ df] conjI) simp_all
  then show ?thesis unfolding names_cause_def
    by (intro disjI2 [THEN disjI2, THEN disjI2, THEN disjI2, THEN disjI2, THEN disjI2,
          THEN disjI2] disjI1)
qed

lemma load_events_cause: "load_events wb = Inl c \<Longrightarrow> names_cause wb c"
proof -
  assume a: "load_events wb = Inl c"
  show ?thesis
  proof (cases "map_of wb ''Department Events''")
    case None
    then have "read_excel wb ''Department Events'' = Inl (WorksheetNotFound ''Department Events'')"
      by (simp add: read_excel_def)
    with a have "c = WorksheetNotFound ''Department Events''" by (simp add: load_events_def)
    with None have "map_of wb ''Department Events'' = None
        \<and> c = WorksheetNotFound ''Department Events''"
      by simp
    then show ?thesis unfolding names_cause_def by (rule disjI1 [THEN disjI2, THEN disjI2])
  next
    case (Some df)
    then have "read_excel wb ''Department Events'' = Inr df" by (simp add: read_excel_def)
    with a have "dropna_records ''Event Title'' df = Inl c" by (simp add: load_events_def)
    then have "c = KeyError ''Event Title'' \<and> ''Event Title'' \<notin> set (columns df)"
      using dropna_records_Inl by blast
    with Some have "\<exists>df. map_of wb ''Department Events'' = Some df
              \<and> c = KeyError ''Event Title'' \<and> ''Event Title'' \<notin> set (columns df)"
      by (intro exI [of _ df] conjI) simp_all
    then show ?thesis unfolding names_cause_def
      by (intro disjI2 [THEN disjI2, THEN disjI2, THEN disjI2, THEN disjI2, THEN disjI2,
            THEN disjI2, THEN disjI2] disjI1)
  qed
qed

lemma load_contact_cause: "load_contact wb = Inl c \<Longrightarrow> names_cause wb c"
proof -
  assume a: "load_contact wb = Inl c"
  then have "''Contact Info'' \<in> set (sheet_names wb)"
    by (auto simp: load_contact_def split: if_splits)
  then obtain df where df: "map_of wb ''Contact Info'' = Some df"
    by (auto simp: in_sheet_names)
  then have "read_excel wb ''Contact Info'' = Inr df" by (simp add: read_excel_Inr_iff)
  with a df have "field_value_dict df = Inl c"
    by (simp add: load_contact_def in_sheet_names)
  then have "c = KeyError ''Field'' \<and> ''Field'' \<notin> set (columns df)
        \<or> c = KeyError ''Value'' \<and> ''Value'' \<notin> set (columns df)"
    by (rule field_value_dict_Inl2)
  with df have "\<exists>df. map_of wb ''Contact Info'' = Some df
              \<and> (c = KeyError ''Field'' \<and> ''Field'' \<notin> set (columns df)
                  \<or> c = KeyError ''Value'' \<and> ''Value'' \<notin> set (columns df))"
    by (intro exI [of _ df] conjI)
  then show ?thesis unfolding names_cause_def
    by (intro disjI2 [THEN disjI2, THEN disjI2, THEN disjI2, THEN disjI2, THEN disjI2,
          THEN disjI2, THEN disjI2, THEN disjI2])
qed

lemma read_sheets_cause: "read_sheets wb = Inl c \<Longrightarrow> names_cause wb c"
proof -
  assume "read_sheets wb = Inl c"
  then have "load_info wb = Inl c \<or> load_editorial wb = Inl c \<or> load_vision_mission wb = Inl c
      \<or> load_peo wb = Inl c \<or> load_pso wb = Inl c \<or> load_events wb = Inl c
      \<or> load_contact wb = Inl c"
    unfolding read_sheets_def and_then_Inl_iff by auto
  then show ?thesis
    using load_info_cause load_editorial_cause load_vision_mission_cause load_peo_cause
      load_pso_cause load_events_cause load_contact_cause by blast
qed

lemma load_data_cause:
  "load_data (Some wb) = Inl err \<Longrightarrow> \<exists>c. err = ErrorLoadingExcel c \<and> names_cause wb c"
  using read_sheets_cause [of wb] by (cases "read_sheets wb") (auto simp: load_data_def)

lemma load_data_without_info:
  "map_of wb ''Newsletter Info'' = None \<Longrightarrow>
   load_data (Some wb) = Inl (ErrorLoadingExcel (WorksheetNotFound ''Newsletter Info''))"
  by (simp add: load_data_def read_sheets_def load_info_def read_excel_def)

lemma load_data_optional_empty:
  assumes "load_data (Some wb) = Inr d"
  shows "map_of wb ''Vision & Mission'' = None \<longrightarrow> vision_mission d = []"
    and "map_of wb ''Program Objectives'' = None \<longrightarrow> peo d = []"
    and "map_of wb ''Program Outcomes'' = None \<longrightarrow> pso d = []"
    and "map_of wb ''Contact Info'' = None \<longrightarrow> contact d = []"
proof -
  from assms have "read_sheets wb = Inr d"
    by (cases "read_sheets wb") (simp_all add: load_data_def)
  then obtain i e vm po ps ev c where
    l: "load_vision_mission wb = Inr vm" "load_peo wb = Inr po" "load_pso wb = Inr ps"
       "load_contact wb = Inr c"
    and d: "d = \<lparr>info = i, editorial = e, vision_mission = vm, peo = po, pso = ps,
                 events = ev, contact = c\<rparr>"
    unfolding read_sheets_Inr_iff by blast
  show "map_of wb ''Vision & Mission'' = None \<longrightarrow> vision_mission d = []"
    using l(1) d by (auto simp: load_vision_mission_def in_sheet_names)
  show "map_of wb ''Program Objectives'' = None \<longrightarrow> peo d = []"
    using l(2) d by (auto simp: load_peo_def in_sheet_names)
  show "map_of wb ''Program Outcomes'' = None \<longrightarrow> pso d = []"
    using l(3) d by (auto simp: load_pso_def in_sheet_names)
  show "map_of wb ''Contact Info'' = None \<longrightarrow> contact d = []"
    using l(4) d by (auto simp: load_contact_def in_sheet_names)
qed


lemma load_data_total:
  "(\<exists>err. load_data (Some wb) = Inl err) \<longleftrightarrow> \<not> (\<exists>d. load_data (Some wb) = Inr d)"
  by (cases "load_data (Some wb)") simp_all

lemma not_all_present:
  fixes m1 m2 m3 m4 m5 m6 m7 :: "'a option"
  shows "\<not> ((\<exists>x. m1 = Some x \<and> \<not> P1 x) \<and> (\<exists>x. m2 = Some x \<and> P2 x) \<and> (\<exists>x. m3 = Some x \<and> P3 x)
       \<and> (\<forall>x. m4 = Some x \<longrightarrow> P4 x) \<and> (\<forall>x. m5 = Some x \<longrightarrow> P5 x)
       \<and> (\<forall>x. m6 = Some x \<longrightarrow> P6 x) \<and> (\<forall>x. m7 = Some x \<longrightarrow> \<not> P7 x))
     \<longleftrightarrow>
       (m1 = None \<or> m2 = None \<or> m3 = None
        \<or> (\<exists>x. m1 = Some x \<and> P1 x) \<or> (\<exists>x. m2 = Some x \<and> \<not> P2 x)
        \<or> (\<exists>x. m4 = Some x \<and> \<not> P4 x) \<or> (\<exists>x. m5 = Some x \<and> \<not> P5 x)
        \<or> (\<exists>x. m6 = Some x \<and> \<not> P6 x) \<or> (\<exists>x. m3 = Some x \<and> \<not> P3 x)
        \<or> (\<exists>x. m7 = Some x \<and> P7 x))"
  by (cases m1; cases m2; cases m3; cases m4; cases m5; cases m6; cases m7) auto

lemma load_data_fails_iff:
  "(\<exists>err. load_data (Some wb) = Inl err) \<longleftrightarrow>
     (map_of wb ''Newsletter Info'' = None \<or> map_of wb ''Editorial Board'' = None
      \<or> map_of wb ''Department Events'' = None
      \<or> (\<exists>df. map_of wb ''Newsletter Info'' = Some df \<and> lacks_field_value df)
      \<or> (\<exists>df. map_of wb ''Editorial Board'' = Some df \<and> ''Role'' \<notin> set (columns df))
      \<or> (\<exists>df. map_of wb ''Vision & Mission'' = Some df \<and> ''Type'' \<notin> set (columns df))
      \<or> (\<exists>df. map_of wb ''Program Objectives'' = Some df
              \<and> ''Code'' \<notin> strip ` set (columns df))
      \<or> (\<exists>df. map_of wb ''Program Outcomes'' = Some df
              \<and> ''Code'' \<notin> strip ` set (columns df))
      \<or> (\<exists>df. map_of wb ''Department Events'' = Some df
              \<and> ''Event Title'' \<notin> set (columns df))
      \<or> (\<exists>df. map_of wb ''Contact Info'' = Some df \<and> lacks_field_value df))"
  unfolding load_data_total load_data_ok loadable_def
  by (rule not_all_present)

text \<open>
  A sheet of fields and values without the columns \<open>Field\<close> and \<open>Value\<close> still loads
  when it has no row, and one without the column \<open>Value\<close> when no row has a field.
\<close>

lemma load_data_without_field_columns:
  "load_data (Some
      [(''Newsletter Info'', \<lparr>columns = [''Alpha'', ''Beta''], rows = []\<rparr>),
       (''Editorial Board'', \<lparr>columns = [''Role''], rows = []\<rparr>),
       (''Department Events'', \<lparr>columns = [''Event Title''], rows = []\<rparr>),
       (''Contact Info'', \<lparr>columns = [''Field'', ''Other''], rows = [[NaN, Str ''x'']]\<rparr>)])
   = Inr \<lparr>info = [], editorial = [], vision_mission = [], peo = [], pso = [], events = [],
          contact = []\<rparr>"
  by (simp add: load_data_def read_sheets_def load_info_def load_editorial_def
      load_vision_mission_def load_peo_def load_pso_def load_events_def load_contact_def
      read_excel_def sheet_names_def field_value_dict_def dropna_records_def first_cell_def)

subsection \<open>The claim about the record loader\<close>

text \<open>
  C5, as stated, does not hold: a readable workbook that has the sheets \<open>Editorial
  Board\<close> and \<open>Department Events\<close> but no sheet \<open>Newsletter Info\<close> does not load;
  the loader raises its error, with the missing worksheet as the cause.
\<close>

theorem C5_counterexample:
  "map_of 
      [(''Editorial Board'',
             \<lparr>columns = [''Role'', ''Name'', ''Designation''],
              rows = [[Str ''Editor'', Str ''Asha'', Str ''Professor'']]\<rparr>),
            (''Department Events'', \<lparr>columns = [''Event Title''], rows = []\<rparr>)] ''Editorial Board'' \<noteq> None
   \<and> map_of 
      [(''Editorial Board'',
             \<lparr>columns = [''Role'', ''Name'', ''Designation''],
              rows = [[Str ''Editor'', Str ''Asha'', Str ''Professor'']]\<rparr>),
            (''Department Events'', \<lparr>columns = [''Event Title''], rows = []\<rparr>)] ''Department Events'' \<noteq> None
   \<and> load_data (Some 
      [(''Editorial Board'',
             \<lparr>columns = [''Role'', ''Name'', ''Designation''],
              rows = [[Str ''Editor'', Str ''Asha'', Str ''Professor'']]\<rparr>),
            (''Department Events'', \<lparr>columns = [''Event Title''], rows = []\<rparr>)]) = Inl (ErrorLoadingExcel (WorksheetNotFound ''Newsletter Info''))"
  by (simp add: load_data_def read_sheets_def load_info_def read_excel_def)

text \<open>
  C5, amended: the sheets \<open>Vision & Mission\<close>, \<open>Program Objectives\<close>,
  \<open>Program Outcomes\<close> and \<open>Contact Info\<close> may be absent: the absence of one of them
  never makes loading fail, and the table of an absent one is empty in the loaded data.
  Loading fails exactly when the file cannot be read, or one of the sheets
  \<open>Newsletter Info\<close>, \<open>Editorial Board\<close> and \<open>Department Events\<close> is absent, or a
  sheet that is present lacks a column that is read: \<open>Editorial Board\<close> the column
  \<open>Role\<close>, \<open>Vision & Mission\<close> the column \<open>Type\<close>, \<open>Program Objectives\<close> or
  \<open>Program Outcomes\<close> the column \<open>Code\<close> among the stripped column names,
  \<open>Department Events\<close> the column \<open>Event Title\<close>, and \<open>Newsletter Info\<close> or
  \<open>Contact Info\<close> the column \<open>Field\<close> although it has a row, or the column
  \<open>Value\<close> although it has a row whose field is not null. A load that fails raises the
  single load error and gives no data; the cause in the error is the unreadable file, a
  worksheet that is read without a test and is absent, or the key error of a column that
  a present sheet does not have.
\<close>

theorem C5_load_fails_exactly:
  "load_data None = Inl (ErrorLoadingExcel FileError)
   \<and> ((\<exists>err. load_data (Some wb) = Inl err) \<longleftrightarrow>
         (map_of wb ''Newsletter Info'' = None \<or> map_of wb ''Editorial Board'' = None
          \<or> map_of wb ''Department Events'' = None
          \<or> (\<exists>df. map_of wb ''Newsletter Info'' = Some df \<and> lacks_field_value df)
          \<or> (\<exists>df. map_of wb ''Editorial Board'' = Some df \<and> ''Role'' \<notin> set (columns df))
          \<or> (\<exists>df. map_of wb ''Vision & Mission'' = Some df \<and> ''Type'' \<notin> set (columns df))
          \<or> (\<exists>df. map_of wb ''Program Objectives'' = Some df
                  \<and> ''Code'' \<notin> strip ` set (columns df))
          \<or> (\<exists>df. map_of wb ''Program Outcomes'' = Some df
                  \<and> ''Code'' \<notin> strip ` set (columns df))
          \<or> (\<exists>df. map_of wb ''Department Events'' = Some df
                  \<and> ''Event Title'' \<notin> set (columns df))
          \<or> (\<exists>df. map_of wb ''Contact Info'' = Some df \<and> lacks_field_value df)))
   \<and> ((\<exists>d. load_data (Some wb) = Inr d) \<longleftrightarrow> \<not> (\<exists>err. load_data (Some wb) = Inl err))
   \<and> (load_data (Some wb) = Inl err \<longrightarrow>
        (\<exists>c. err = ErrorLoadingExcel c \<and>
    ((map_of wb ''Newsletter Info'' = None \<and> c = WorksheetNotFound ''Newsletter Info'')
      \<or> (map_of wb ''Editorial Board'' = None \<and> c = WorksheetNotFound ''Editorial Board'')
      \<or> (map_of wb ''Department Events'' = None \<and> c = WorksheetNotFound ''Department Events'')
      \<or> (\<exists>df. map_of wb ''Newsletter Info'' = Some df
              \<and> (c = KeyError ''Field'' \<and> ''Field'' \<notin> set (columns df)
                  \<or> c = KeyError ''Value'' \<and> ''Value'' \<notin> set (columns df)))
      \<or> (\<exists>df. map_of wb ''Editorial Board'' = Some df
              \<and> c = KeyError ''Role'' \<and> ''Role'' \<notin> set (columns df))
      \<or> (\<exists>df. map_of wb ''Vision & Mission'' = Some df
              \<and> c = KeyError ''Type'' \<and> ''Type'' \<notin> set (columns df))
      \<or> (\<exists>df. map_of wb ''Program Objectives'' = Some df
              \<and> c = KeyError ''Code'' \<and> ''Code'' \<notin> strip ` set (columns df))
      \<or> (\<exists>df. map_of wb ''Program Outcomes'' = Some df
              \<and> c = KeyError ''Code'' \<and> ''Code'' \<notin> strip ` set (columns df))
      \<or> (\<exists>df. map_of wb ''Department Events'' = Some df
              \<and> c = KeyError ''Event Title'' \<and> ''Event Title'' \<notin> set (columns df))
      \<or> (\<exists>df. map_of wb ''Contact Info'' = Some df
              \<and> (c = KeyError ''Field'' \<and> ''Field'' \<notin> set (columns df)
                  \<or> c = KeyError ''Value'' \<and> ''Value'' \<notin> set (columns df))))))
   \<and> (map_of wb ''Newsletter Info'' = None \<longrightarrow>
        load_data (Some wb) = Inl (ErrorLoadingExcel (WorksheetNotFound ''Newsletter Info'')))
   \<and> (load_data (Some wb) = Inr d \<longrightarrow>
        (map_of wb ''Vision & Mission'' = None \<longrightarrow> vision_mission d = [])
        \<and> (map_of wb ''Program Objectives'' = None \<longrightarrow> peo d = [])
        \<and> (map_of wb ''Program Outcomes'' = None \<longrightarrow> pso d = [])
        \<and> (map_of wb ''Contact Info'' = None \<longrightarrow> contact d = []))"
proof -
  have a: "load_data None = Inl (ErrorLoadingExcel FileError)" by (simp add: load_data_def)
  have b: "(\<exists>err. load_data (Some wb) = Inl err) \<longleftrightarrow>
         (map_of wb ''Newsletter Info'' = None \<or> map_of wb ''Editorial Board'' = None
          \<or> map_of wb ''Department Events'' = None
          \<or> (\<exists>df. map_of wb ''Newsletter Info'' = Some df \<and> lacks_field_value df)
          \<or> (\<exists>df. map_of wb ''Editorial Board'' = Some df \<and> ''Role'' \<notin> set (columns df))
          \<or> (\<exists>df. map_of wb ''Vision & Mission'' = Some df \<and> ''Type'' \<notin> set (columns df))
          \<or> (\<exists>df. map_of wb ''Program Objectives'' = Some df
                  \<and> ''Code'' \<notin> strip ` set (columns df))
          \<or> (\<exists>df. map_of wb ''Program Outcomes'' = Some df
                  \<and> ''Code'' \<notin> strip ` set (columns df))
          \<or> (\<exists>df. map_of wb ''Department Events'' = Some df
                  \<and> ''Event Title'' \<notin> set (columns df))
          \<or> (\<exists>df. map_of wb ''Contact Info'' = Some df \<and> lacks_field_value df))"
    by (rule load_data_fails_iff)
  have t: "(\<exists>d. load_data (Some wb) = Inr d) \<longleftrightarrow> \<not> (\<exists>err. load_data (Some wb) = Inl err)"
    using load_data_total [of wb] by blast
  have c: "load_data (Some wb) = Inl err \<longrightarrow>
        (\<exists>c. err = ErrorLoadingExcel c \<and>
    ((map_of wb ''Newsletter Info'' = None \<and> c = WorksheetNotFound ''Newsletter Info'')
      \<or> (map_of wb ''Editorial Board'' = None \<and> c = WorksheetNotFound ''Editorial Board'')
      \<or> (map_of wb ''Department Events'' = None \<and> c = WorksheetNotFound ''Department Events'')
      \<or> (\<exists>df. map_of wb ''Newsletter Info'' = Some df
              \<and> (c = KeyError ''Field'' \<and> ''Field'' \<notin> set (columns df)
                  \<or> c = KeyError ''Value'' \<and> ''Value'' \<notin> set (columns df)))
      \<or> (\<exists>df. map_of wb ''Editorial Board'' = Some df
              \<and> c = KeyError ''Role'' \<and> ''Role'' \<notin> set (columns df))
      \<or> (\<exists>df. map_of wb ''Vision & Mission'' = Some df
              \<and> c = KeyError ''Type'' \<and> ''Type'' \<notin> set (columns df))
      \<or> (\<exists>df. map_of wb ''Program Objectives'' = Some df
              \<and> c = KeyError ''Code'' \<and> ''Code'' \<notin> strip ` set (columns df))
      \<or> (\<exists>df. map_of wb ''Program Outcomes'' = Some df
              \<and> c = KeyError ''Code'' \<and> ''Code'' \<notin> strip ` set (columns df))
      \<or> (\<exists>df. map_of wb ''Department Events'' = Some df
              \<and> c = KeyError ''Event Title'' \<and> ''Event Title'' \<notin> set (columns df))
      \<or> (\<exists>df. map_of wb ''Contact Info'' = Some df
              \<and> (c = KeyError ''Field'' \<and> ''Field'' \<notin> set (columns df)
                  \<or> c = KeyError ''Value'' \<and> ''Value'' \<notin> set (columns df)))))"
    by (rule impI) (rule load_data_cause [unfolded names_cause_def])
  have n: "map_of wb ''Newsletter Info'' = None \<longrightarrow>
        load_data (Some wb) = Inl (ErrorLoadingExcel (WorksheetNotFound ''Newsletter Info''))"
    by (rule impI) (rule load_data_without_info)
  have e: "load_data (Some wb) = Inr d \<longrightarrow>
        (map_of wb ''Vision & Mission'' = None \<longrightarrow> vision_mission d = [])
        \<and> (map_of wb ''Program Objectives'' = None \<longrightarrow> peo d = [])
        \<and> (map_of wb ''Program Outcomes'' = None \<longrightarrow> pso d = [])
        \<and> (map_of wb ''Contact Info'' = None \<longrightarrow> contact d = [])"
    using load_data_optional_empty [of wb d] by blast
  show ?thesis using a b t c n e by (intro conjI)
qed

theorem C5_load_fails_exactly_witness:
  "load_data (Some
      [(''Newsletter Info'',
        \<lparr>columns = [''Field'', ''Value''], rows = [[Str ''Month'', Str ''AUGUST''], [NaN, NaN]]\<rparr>),
       (''Editorial Board'',
        \<lparr>columns = [''Role'', ''Name''], rows = [[Str ''Editor'', Str ''Asha''], [NaN, Str ''Ravi'']]\<rparr>),
       (''Department Events'', \<lparr>columns = [''Event Title''], rows = [[Str ''Hackathon'']]\<rparr>)])
   = Inr
      \<lparr>info = [(Str ''Month'', Str ''AUGUST'')],
        editorial = [[(''Role'', Str ''Editor''), (''Name'', Str ''Asha'')]],
        vision_mission = [], peo = [], pso = [],
        events = [[(''Event Title'', Str ''Hackathon'')]],
        contact = []\<rparr>
   \<and> vision_mission
      \<lparr>info = [(Str ''Month'', Str ''AUGUST'')],
        editorial = [[(''Role'', Str ''Editor''), (''Name'', Str ''Asha'')]],
        vision_mission = [], peo = [], pso = [],
        events = [[(''Event Title'', Str ''Hackathon'')]],
        contact = []\<rparr> = []
   \<and> contact
      \<lparr>info = [(Str ''Month'', Str ''AUGUST'')],
        editorial = [[(''Role'', Str ''Editor''), (''Name'', Str ''Asha'')]],
        vision_mission = [], peo = [], pso = [],
        events = [[(''Event Title'', Str ''Hackathon'')]],
        contact = []\<rparr> = []"
proof -
  let ?wb = "[(''Newsletter Info'',
        \<lparr>columns = [''Field'', ''Value''], rows = [[Str ''Month'', Str ''AUGUST''], [NaN, NaN]]\<rparr>),
       (''Editorial Board'',
        \<lparr>columns = [''Role'', ''Name''], rows = [[Str ''Editor'', Str ''Asha''], [NaN, Str ''Ravi'']]\<rparr>),
       (''Department Events'', \<lparr>columns = [''Event Title''], rows = [[Str ''Hackathon'']]\<rparr>)]"
  let ?d = "\<lparr>info = [(Str ''Month'', Str ''AUGUST'')],
        editorial = [[(''Role'', Str ''Editor''), (''Name'', Str ''Asha'')]],
        vision_mission = [], peo = [], pso = [],
        events = [[(''Event Title'', Str ''Hackathon'')]],
        contact = []\<rparr>"
  have l: "load_data (Some ?wb) = Inr ?d"
    by (simp add: load_data_def read_sheets_def load_info_def load_editorial_def
        load_vision_mission_def load_peo_def load_pso_def load_events_def load_contact_def
        read_excel_def sheet_names_def field_value_dict_def dropna_records_def first_cell_def)
  have m: "map_of ?wb ''Vision & Mission'' = None" "map_of ?wb ''Contact Info'' = None"
    by simp_all
  have "load_data (Some ?wb) = Inr ?d \<longrightarrow>
        (map_of ?wb ''Vision & Mission'' = None \<longrightarrow> vision_mission ?d = [])
        \<and> (map_of ?wb ''Program Objectives'' = None \<longrightarrow> peo ?d = [])
        \<and> (map_of ?wb ''Program Outcomes'' = None \<longrightarrow> pso ?d = [])
        \<and> (map_of ?wb ''Contact Info'' = None \<longrightarrow> contact ?d = [])"
    by (rule C5_load_fails_exactly [where wb = ?wb and d = ?d, THEN conjunct2, THEN conjunct2,
          THEN conjunct2, THEN conjunct2, THEN conjunct2])
  with l m have "vision_mission ?d = [] \<and> contact ?d = []" by blast
  with l show ?thesis by (intro conjI) simp_all
qed

section \<open>Properties of the PDF editor\<close>

lemma resolve_index_high: "int n \<le> index \<Longrightarrow> resolve_index n index = Inl IndexError"
  by (simp add: resolve_index_def)

lemma resolve_index_own: "i < n \<Longrightarrow> resolve_index n (int i) = Inr i"
  by (simp add: resolve_index_def)

lemma resolve_index_negative:
  "index < 0 \<Longrightarrow> - int n \<le> index \<Longrightarrow> resolve_index n index = Inr (nat (int n + index))"
  by (simp add: resolve_index_def)

lemma delete_from_copies:
  assumes "\<forall>i \<in> set positions. i < length (reader_pages st) \<and> int i \<noteq> page_num"
  shows "delete_from page_num positions st =
           (Inr True, st\<lparr>writer_pages := writer_pages st @ map (\<lambda>i. reader_pages st ! i) positions\<rparr>)"
  using assms
proof (induction positions arbitrary: st)
  case Nil
  then show ?case by simp
next
  case (Cons i rest)
  let ?st = "st\<lparr>writer_pages := writer_pages st @ [reader_pages st ! i]\<rparr>"
  have i: "i < length (reader_pages st)" "int i \<noteq> page_num" using Cons.prems by simp_all
  have "\<forall>j \<in> set rest. j < length (reader_pages ?st) \<and> int j \<noteq> page_num"
    using Cons.prems by simp
  then have "delete_from page_num rest ?st =
      (Inr True, ?st\<lparr>writer_pages := writer_pages ?st @ map (\<lambda>i. reader_pages ?st ! i) rest\<rparr>)"
    by (rule Cons.IH)
  then show ?case using i by (simp add: resolve_index_own)
qed

lemma delete_from_skip:
  assumes "\<forall>i \<in> set (before @ after). i < length (reader_pages st) \<and> i \<noteq> k"
  shows "delete_from (int k) (before @ k # after) st =
           (Inr True, st\<lparr>writer_pages := writer_pages st @ map (\<lambda>i. reader_pages st ! i) (before @ after)\<rparr>)"
  using assms
proof (induction before arbitrary: st)
  case Nil
  then have "\<forall>i \<in> set after. i < length (reader_pages st) \<and> int i \<noteq> int k" by simp
  then show ?case using delete_from_copies [of after st "int k"] by simp
next
  case (Cons i before)
  let ?st = "st\<lparr>writer_pages := writer_pages st @ [reader_pages st ! i]\<rparr>"
  have i: "i < length (reader_pages st)" "int i \<noteq> int k" using Cons.prems by simp_all
  have "\<forall>j \<in> set (before @ after). j < length (reader_pages ?st) \<and> j \<noteq> k"
    using Cons.prems by simp
  then have "delete_from (int k) (before @ k # after) ?st =
      (Inr True, ?st\<lparr>writer_pages := writer_pages ?st
         @ map (\<lambda>i. reader_pages ?st ! i) (before @ after)\<rparr>)"
    by (rule Cons.IH)
  then show ?case using i by (simp add: resolve_index_own)
qed

lemma upt_split_at: "k < n \<Longrightarrow> [0..<n] = [0..<k] @ k # [Suc k..<n]"
proof -
  assume k: "k < n"
  have "[0..<k + (n - k)] = [0..<k] @ [k..<k + (n - k)]" by (rule upt_add_eq_append) simp
  then have "[0..<n] = [0..<k] @ [k..<n]" using k by simp
  then show ?thesis using k by (simp add: upt_conv_Cons)
qed

lemma map_nth_take: "k \<le> length xs \<Longrightarrow> map (\<lambda>i. xs ! i) [0..<k] = take k xs"
proof -
  assume k: "k \<le> length xs"
  have "take k (map (\<lambda>i. xs ! i) [0..<length xs]) = map (\<lambda>i. xs ! i) [0..<k]"
    using k by (simp add: take_map)
  then show ?thesis by (simp only: map_nth)
qed

lemma map_nth_drop: "map (\<lambda>i. xs ! i) [k..<length xs] = drop k xs"
proof -
  have "drop k (map (\<lambda>i. xs ! i) [0..<length xs]) = map (\<lambda>i. xs ! i) [k..<length xs]"
    by (simp add: drop_map)
  then show ?thesis by (simp only: map_nth)
qed

lemma delete_page_in_range:
  assumes "num_pages st = length (reader_pages st)" "k < num_pages st"
  shows "delete_page (int k) st =
           (Inr True, st\<lparr>writer_pages := writer_pages st
              @ take k (reader_pages st) @ drop (Suc k) (reader_pages st)\<rparr>)"
proof -
  let ?n = "length (reader_pages st)"
  have u: "[0..<?n] = [0..<k] @ k # [Suc k..<?n]"
    using assms by (simp add: upt_split_at)
  have "\<forall>i \<in> set ([0..<k] @ [Suc k..<?n]). i < ?n \<and> i \<noteq> k" using assms by auto
  then have "delete_from (int k) ([0..<k] @ k # [Suc k..<?n]) st =
      (Inr True, st\<lparr>writer_pages := writer_pages st
         @ map (\<lambda>i. reader_pages st ! i) ([0..<k] @ [Suc k..<?n])\<rparr>)"
    by (rule delete_from_skip)
  moreover have "map (\<lambda>i. reader_pages st ! i) [0..<k] = take k (reader_pages st)"
    using assms by (simp add: map_nth_take)
  moreover have "map (\<lambda>i. reader_pages st ! i) [Suc k..<?n] = drop (Suc k) (reader_pages st)"
    by (rule map_nth_drop)
  ultimately show ?thesis using assms(1) u by (simp add: delete_page_def)
qed

lemma delete_page_out_of_range:
  assumes "num_pages st = length (reader_pages st)"
    and "page_num < 0 \<or> int (num_pages st) \<le> page_num"
  shows "delete_page page_num st =
           (Inr True, st\<lparr>writer_pages := writer_pages st @ reader_pages st\<rparr>)"
proof -
  have "\<forall>i \<in> set [0..<length (reader_pages st)]. i < length (reader_pages st) \<and> int i \<noteq> page_num"
    using assms by auto
  then have "delete_from page_num [0..<length (reader_pages st)] st =
      (Inr True, st\<lparr>writer_pages := writer_pages st
         @ map (\<lambda>i. reader_pages st ! i) [0..<length (reader_pages st)]\<rparr>)"
    by (rule delete_from_copies)
  then show ?thesis using assms(1) by (simp add: delete_page_def map_nth)
qed

lemma draw_on_page_out_of_range:
  "int (length (reader_pages st)) \<le> page_num \<Longrightarrow> canvas_ok overlay \<Longrightarrow>
   draw_on_page canvas_ok page_num overlay st = (Inl IndexError, st)"
  by (simp add: draw_on_page_def resolve_index_high)

lemma draw_on_page_negative:
  "page_num < 0 \<Longrightarrow> - int (length (reader_pages st)) \<le> page_num \<Longrightarrow> canvas_ok overlay \<Longrightarrow>
   draw_on_page canvas_ok page_num overlay st =
     (Inr True,
      st\<lparr>reader_pages := (reader_pages st)
             [nat (int (length (reader_pages st)) + page_num) :=
                merge_page (reader_pages st ! nat (int (length (reader_pages st)) + page_num)) overlay],
          writer_pages := writer_pages st
             @ [merge_page (reader_pages st ! nat (int (length (reader_pages st)) + page_num)) overlay]\<rparr>)"
  by (simp add: draw_on_page_def resolve_index_negative Let_def)

text \<open>
  The operations that look the page up in the reader raise \<open>IndexError\<close> for an index
  that is not below the number of pages, and leave the editor and the saved files as
  they are.
\<close>

lemma lookup_operations_index_error:
  assumes "int (length (reader_pages st)) \<le> page_num"
  shows "canvas_ok (DrawString text x y font_size color font_name) \<Longrightarrow>
           add_text canvas_ok page_num text x y font_size color font_name st = (Inl IndexError, st)"
    and "canvas_ok (DrawImage image_path x y width height) \<Longrightarrow>
           add_image canvas_ok page_num image_path x y width height st = (Inl IndexError, st)"
    and "canvas_ok (Rect x y width height fill_color stroke_color stroke_width) \<Longrightarrow>
           add_rectangle canvas_ok page_num x y width height fill_color stroke_color stroke_width st
             = (Inl IndexError, st)"
    and "canvas_ok (Line x1 y1 x2 y2 color width) \<Longrightarrow>
           add_line canvas_ok page_num x1 y1 x2 y2 color width st = (Inl IndexError, st)"
    and "rotate_page page_num angle st = (Inl IndexError, st)"
    and "extract_text page_num st = (Inl IndexError, st)"
  using assms
  by (simp_all add: add_text_def add_image_def add_rectangle_def add_line_def rotate_page_def
      extract_text_def draw_on_page_out_of_range resolve_index_high)

lemma negative_index_operations:
  fixes st :: editor and page_num :: int
  defines "i \<equiv> nat (int (length (reader_pages st)) + page_num)"
  assumes "page_num < 0" and "- int (length (reader_pages st)) \<le> page_num"
  shows "i < length (reader_pages st) \<and> int i = int (length (reader_pages st)) + page_num"
    and "page_num = - 1 \<longrightarrow> reader_pages st ! i = last (reader_pages st)"
    and "canvas_ok (DrawString text x y font_size color font_name) \<longrightarrow>
           add_text canvas_ok page_num text x y font_size color font_name st =
             (Inr True,
              st\<lparr>reader_pages := (reader_pages st)
                     [i := merge_page (reader_pages st ! i) (DrawString text x y font_size color font_name)],
                  writer_pages := writer_pages st
                     @ [merge_page (reader_pages st ! i) (DrawString text x y font_size color font_name)]\<rparr>)"
    and "canvas_ok (DrawImage image_path x y width height) \<longrightarrow>
           add_image canvas_ok page_num image_path x y width height st =
             (Inr True,
              st\<lparr>reader_pages := (reader_pages st)
                     [i := merge_page (reader_pages st ! i) (DrawImage image_path x y width height)],
                  writer_pages := writer_pages st
                     @ [merge_page (reader_pages st ! i) (DrawImage image_path x y width height)]\<rparr>)"
    and "canvas_ok (Rect x y width height fill_color stroke_color stroke_width) \<longrightarrow>
           add_rectangle canvas_ok page_num x y width height fill_color stroke_color stroke_width st =
             (Inr True,
              st\<lparr>reader_pages := (reader_pages st)
                     [i := merge_page (reader_pages st ! i)
                             (Rect x y width height fill_color stroke_color stroke_width)],
                  writer_pages := writer_pages st
                     @ [merge_page (reader_pages st ! i)
                          (Rect x y width height fill_color stroke_color stroke_width)]\<rparr>)"
    and "canvas_ok (Line x1 y1 x2 y2 color width) \<longrightarrow>
           add_line canvas_ok page_num x1 y1 x2 y2 color width st =
             (Inr True,
              st\<lparr>reader_pages := (reader_pages st)
                     [i := merge_page (reader_pages st ! i) (Line x1 y1 x2 y2 color width)],
                  writer_pages := writer_pages st
                     @ [merge_page (reader_pages st ! i) (Line x1 y1 x2 y2 color width)]\<rparr>)"
    and "angle mod 90 = 0 \<longrightarrow>
           rotate_page page_num angle st =
             (Inr True,
              st\<lparr>reader_pages := (reader_pages st)
                     [i := (reader_pages st ! i)\<lparr>rotation := rotation (reader_pages st ! i) + angle\<rparr>],
                  writer_pages := writer_pages st
                     @ [(reader_pages st ! i)\<lparr>rotation := rotation (reader_pages st ! i) + angle\<rparr>]\<rparr>)"
    and "extract_text page_num st = (Inr (page_text (reader_pages st ! i)), st)"
proof -
  show r: "i < length (reader_pages st) \<and> int i = int (length (reader_pages st)) + page_num"
    using assms(2,3) by (simp add: i_def)
  show "page_num = - 1 \<longrightarrow> reader_pages st ! i = last (reader_pages st)"
  proof
    assume m: "page_num = - 1"
    with r have ne: "reader_pages st \<noteq> []" by auto
    have "i = length (reader_pages st) - 1" using m r by linarith
    with ne show "reader_pages st ! i = last (reader_pages st)" by (simp add: last_conv_nth)
  qed
qed (simp_all add: assms(2,3) i_def add_text_def add_image_def add_rectangle_def add_line_def
       draw_on_page_negative rotate_page_def extract_text_def resolve_index_negative Let_def)

subsection \<open>The claims about the PDF editor\<close>

text \<open>
  C8: on a fresh editor for a source of 5 pages, \<open>delete_page\<close> with the page index 2
  returns \<open>True\<close> and leaves in the writer the 4 original pages of the indices 0, 1, 3
  and 4, in that order.
\<close>

theorem C8_delete_page_2_of_5:
  assumes "length pages = 5"
  shows "delete_page 2 (PDFEditor pages files) =
           (Inr True, (PDFEditor pages files)\<lparr>writer_pages := [pages ! 0, pages ! 1, pages ! 3, pages ! 4]\<rparr>)"
proof -
  obtain a b c d e where p: "pages = [a, b, c, d, e]"
    using assms by (auto simp: eval_nat_numeral length_Suc_conv)
  have "delete_page (int 2) (PDFEditor pages files) =
      (Inr True, (PDFEditor pages files)\<lparr>writer_pages := writer_pages (PDFEditor pages files)
         @ take 2 (reader_pages (PDFEditor pages files))
         @ drop (Suc 2) (reader_pages (PDFEditor pages files))\<rparr>)"
    by (rule delete_page_in_range) (simp_all add: PDFEditor_def assms)
  then show ?thesis by (simp add: PDFEditor_def p)
qed

theorem C8_delete_page_2_of_5_witness:
  "snd (delete_page 2 (PDFEditor
      [\<lparr>page_text = ''p0'', overlays = [], rotation = 0\<rparr>,
       \<lparr>page_text = ''p1'', overlays = [], rotation = 0\<rparr>,
       \<lparr>page_text = ''p2'', overlays = [], rotation = 0\<rparr>,
       \<lparr>page_text = ''p3'', overlays = [], rotation = 0\<rparr>,
       \<lparr>page_text = ''p4'', overlays = [], rotation = 0\<rparr>] []))
   = \<lparr>reader_pages =
        [\<lparr>page_text = ''p0'', overlays = [], rotation = 0\<rparr>,
         \<lparr>page_text = ''p1'', overlays = [], rotation = 0\<rparr>,
         \<lparr>page_text = ''p2'', overlays = [], rotation = 0\<rparr>,
         \<lparr>page_text = ''p3'', overlays = [], rotation = 0\<rparr>,
         \<lparr>page_text = ''p4'', overlays = [], rotation = 0\<rparr>],
      writer_pages =
        [\<lparr>page_text = ''p0'', overlays = [], rotation = 0\<rparr>,
         \<lparr>page_text = ''p1'', overlays = [], rotation = 0\<rparr>,
         \<lparr>page_text = ''p3'', overlays = [], rotation = 0\<rparr>,
         \<lparr>page_text = ''p4'', overlays = [], rotation = 0\<rparr>],
      num_pages = 5, disk = []\<rparr>"
  by (subst C8_delete_page_2_of_5) (simp_all add: PDFEditor_def)

text \<open>
  C9 is not met by \<open>delete_page\<close>: with a page index that is not below the number of
  pages it raises nothing; it returns \<open>True\<close> and appends a copy of every page of the
  source to the writer.
\<close>

theorem C9_delete_page_out_of_range_copies_all:
  assumes "num_pages st = length (reader_pages st)" and "int (num_pages st) \<le> page_num"
  shows "delete_page page_num st =
           (Inr True, st\<lparr>writer_pages := writer_pages st @ reader_pages st\<rparr>)"
  using assms by (simp add: delete_page_out_of_range)

theorem C9_delete_page_out_of_range_copies_all_witness:
  "delete_page 7 (PDFEditor
      [\<lparr>page_text = ''p0'', overlays = [], rotation = 0\<rparr>,
       \<lparr>page_text = ''p1'', overlays = [], rotation = 0\<rparr>,
       \<lparr>page_text = ''p2'', overlays = [], rotation = 0\<rparr>,
       \<lparr>page_text = ''p3'', overlays = [], rotation = 0\<rparr>,
       \<lparr>page_text = ''p4'', overlays = [], rotation = 0\<rparr>] [])
   = (Inr True,
      \<lparr>reader_pages =
        [\<lparr>page_text = ''p0'', overlays = [], rotation = 0\<rparr>,
         \<lparr>page_text = ''p1'', overlays = [], rotation = 0\<rparr>,
         \<lparr>page_text = ''p2'', overlays = [], rotation = 0\<rparr>,
         \<lparr>page_text = ''p3'', overlays = [], rotation = 0\<rparr>,
         \<lparr>page_text = ''p4'', overlays = [], rotation = 0\<rparr>],
      writer_pages =
        [\<lparr>page_text = ''p0'', overlays = [], rotation = 0\<rparr>,
         \<lparr>page_text = ''p1'', overlays = [], rotation = 0\<rparr>,
         \<lparr>page_text = ''p2'', overlays = [], rotation = 0\<rparr>,
         \<lparr>page_text = ''p3'', overlays = [], rotation = 0\<rparr>,
         \<lparr>page_text = ''p4'', overlays = [], rotation = 0\<rparr>],
      num_pages = 5, disk = []\<rparr>)"
  by (subst C9_delete_page_out_of_range_copies_all) (simp_all add: PDFEditor_def)

text \<open>
  C10: the drawing operations, \<open>rotate_page\<close> and \<open>extract_text\<close> accept a negative
  page index \<open>n\<close> with \<open>|n|\<close> at most the number of pages and work on the page at the
  position \<open>len + n\<close>, counted from the end, so that the index \<open>-1\<close> is the last page.
  No index error is raised; the drawing operations and \<open>rotate_page\<close> return \<open>True\<close>
  when the canvas accepts the drawing and the angle is a multiple of 90.
\<close>

theorem C10_negative_index_from_end:
  fixes st :: editor and page_num :: int
  defines "i \<equiv> nat (int (length (reader_pages st)) + page_num)"
  assumes "page_num < 0" and "- int (length (reader_pages st)) \<le> page_num"
  shows "(i < length (reader_pages st) \<and> int i = int (length (reader_pages st)) + page_num)
    \<and> (page_num = - 1 \<longrightarrow> reader_pages st ! i = last (reader_pages st))
    \<and> (canvas_ok (DrawString text x y font_size color font_name) \<longrightarrow>
           add_text canvas_ok page_num text x y font_size color font_name st =
             (Inr True,
              st\<lparr>reader_pages := (reader_pages st)
                     [i := merge_page (reader_pages st ! i) (DrawString text x y font_size color font_name)],
                  writer_pages := writer_pages st
                     @ [merge_page (reader_pages st ! i) (DrawString text x y font_size color font_name)]\<rparr>))
    \<and> (canvas_ok (DrawImage image_path x y width height) \<longrightarrow>
           add_image canvas_ok page_num image_path x y width height st =
             (Inr True,
              st\<lparr>reader_pages := (reader_pages st)
                     [i := merge_page (reader_pages st ! i) (DrawImage image_path x y width height)],
                  writer_pages := writer_pages st
                     @ [merge_page (reader_pages st ! i) (DrawImage image_path x y width height)]\<rparr>))
    \<and> (canvas_ok (Rect x y width height fill_color stroke_color stroke_width) \<longrightarrow>
           add_rectangle canvas_ok page_num x y width height fill_color stroke_color stroke_width st =
             (Inr True,
              st\<lparr>reader_pages := (reader_pages st)
                     [i := merge_page (reader_pages st ! i)
                             (Rect x y width height fill_color stroke_color stroke_width)],
                  writer_pages := writer_pages st
                     @ [merge_page (reader_pages st ! i)
                          (Rect x y width height fill_color stroke_color stroke_width)]\<rparr>))
    \<and> (canvas_ok (Line x1 y1 x2 y2 color width) \<longrightarrow>
           add_line canvas_ok page_num x1 y1 x2 y2 color width st =
             (Inr True,
              st\<lparr>reader_pages := (reader_pages st)
                     [i := merge_page (reader_pages st ! i) (Line x1 y1 x2 y2 color width)],
                  writer_pages := writer_pages st
                     @ [merge_page (reader_pages st ! i) (Line x1 y1 x2 y2 color width)]\<rparr>))
    \<and> (angle mod 90 = 0 \<longrightarrow>
           rotate_page page_num angle st =
             (Inr True,
              st\<lparr>reader_pages := (reader_pages st)
                     [i := (reader_pages st ! i)\<lparr>rotation := rotation (reader_pages st ! i) + angle\<rparr>],
                  writer_pages := writer_pages st
                     @ [(reader_pages st ! i)\<lparr>rotation := rotation (reader_pages st ! i) + angle\<rparr>]\<rparr>))
    \<and> (extract_text page_num st = (Inr (page_text (reader_pages st ! i)), st))"
proof -
  note parts = negative_index_operations [OF assms(2,3)]
  show ?thesis
    unfolding i_def
    apply (rule conjI, rule parts(1))
    apply (rule conjI, rule parts(2))
    apply (rule conjI, rule parts(3))
    apply (rule conjI, rule parts(4))
    apply (rule conjI, rule parts(5))
    apply (rule conjI, rule parts(6))
    apply (rule conjI, rule parts(7))
    apply (rule parts(8))
    done
qed

theorem C10_negative_index_from_end_witness:
  "extract_text (- 1) (PDFEditor
      [\<lparr>page_text = ''p0'', overlays = [], rotation = 0\<rparr>,
       \<lparr>page_text = ''p1'', overlays = [], rotation = 0\<rparr>,
       \<lparr>page_text = ''p2'', overlays = [], rotation = 0\<rparr>] [])
   = (Inr ''p2'', PDFEditor
      [\<lparr>page_text = ''p0'', overlays = [], rotation = 0\<rparr>,
       \<lparr>page_text = ''p1'', overlays = [], rotation = 0\<rparr>,
       \<lparr>page_text = ''p2'', overlays = [], rotation = 0\<rparr>] [])"
  using C10_negative_index_from_end [where page_num = "- 1" and st = "PDFEditor
      [\<lparr>page_text = ''p0'', overlays = [], rotation = 0\<rparr>,
       \<lparr>page_text = ''p1'', overlays = [], rotation = 0\<rparr>,
       \<lparr>page_text = ''p2'', overlays = [], rotation = 0\<rparr>] []"]
  by (simp add: PDFEditor_def)

end
